theory Spec2Isabelle
  imports Main "HOL-Library.Sublist"
begin

section \<open>Strings and characters\<close>

text \<open>
  The plugin works on Python \<^verbatim>\<open>str\<close> values. A title is modelled as a HOL
  \<^typ>\<open>string\<close> holding one \<^typ>\<open>char\<close> per code point, which covers the code
  points 0 to 255. On that range \<^verbatim>\<open>str.isspace\<close> and the pattern class
  \<^verbatim>\<open>\s\<close> agree on the twelve characters below, and case-insensitive comparison
  of a pattern literal with a character of the text is equality after
  \<^verbatim>\<open>str.lower\<close>.
\<close>

definition newline :: char where
  "newline = CHR 0x0A"

definition is_space :: "char \<Rightarrow> bool" where
  "is_space c =
     (let n = (of_char c :: nat)
      in (9 \<le> n \<and> n \<le> 13) \<or> (28 \<le> n \<and> n \<le> 32) \<or> n = 133 \<or> n = 160)"

definition lower_chr :: "char \<Rightarrow> char" where
  "lower_chr c =
     (let n = (of_char c :: nat)
      in if (65 \<le> n \<and> n \<le> 90) \<or> (192 \<le> n \<and> n \<le> 214) \<or> (216 \<le> n \<and> n \<le> 222)
         then char_of (n + 32) else c)"

definition str_lower :: "string \<Rightarrow> string" where
  "str_lower s = map lower_chr s"

text \<open>\<^verbatim>\<open>s.strip()\<close>: leading and trailing whitespace removed.\<close>

definition str_strip :: "string \<Rightarrow> string" where
  "str_strip s = rev (dropWhile is_space (rev (dropWhile is_space s)))"

text \<open>
  \<^verbatim>\<open>s.replace(old, "")\<close>: every occurrence of \<open>old\<close> is removed, scanning from
  the left and continuing after each removed occurrence. With an empty \<open>old\<close> the
  empty string is put between all characters, which gives \<open>s\<close> back.
\<close>

function str_replace :: "string \<Rightarrow> string \<Rightarrow> string" where
  "str_replace [] old = []"
| "str_replace (c # cs) old =
     (if old \<noteq> [] \<and> prefix old (c # cs)
      then str_replace (drop (length old) (c # cs)) old
      else c # str_replace cs old)"
  by pat_completeness auto
termination
  by (relation "measure (\<lambda>(s, old). length s)") auto

section \<open>Errors\<close>

datatype error =
    IndexError    \<comment> \<open>\<^verbatim>\<open>match.group(name)\<close> with a name the pattern does not have\<close>
  | TypeError     \<comment> \<open>\<^verbatim>\<open>None\<close> used where a \<^verbatim>\<open>str\<close> is required\<close>
  | PatternError  \<comment> \<open>\<^verbatim>\<open>re.error\<close> from \<^verbatim>\<open>re.compile\<close>\<close>
  | AttributeError \<comment> \<open>a task without the attribute that is read\<close>

section \<open>Patterns\<close>

text \<open>
  The fragment of the pattern language that the plugin's expressions use. Repetition
  is only ever applied to a single-character item (\<^verbatim>\<open>.\<close> or \<^verbatim>\<open>\s\<close>).
\<close>

datatype atom =
    Ch char             \<comment> \<open>a literal character\<close>
  | OneOf "char list"   \<comment> \<open>a class \<^verbatim>\<open>[...]\<close> of listed characters\<close>
  | Dot                 \<comment> \<open>\<^verbatim>\<open>.\<close>: anything but a newline\<close>
  | Space               \<comment> \<open>\<^verbatim>\<open>\s\<close>\<close>

datatype regex =
    Eps
  | Atom atom
  | Bol                   \<comment> \<open>\<^verbatim>\<open>^\<close>\<close>
  | Eol                   \<comment> \<open>\<^verbatim>\<open>$\<close>\<close>
  | Seq regex regex
  | Alt regex regex       \<comment> \<open>\<^verbatim>\<open>a|b\<close>\<close>
  | Opt regex             \<comment> \<open>\<^verbatim>\<open>a?\<close>\<close>
  | Star atom             \<comment> \<open>\<^verbatim>\<open>a*\<close>\<close>
  | StarLazy atom         \<comment> \<open>\<^verbatim>\<open>a*?\<close>\<close>
  | Plus atom             \<comment> \<open>\<^verbatim>\<open>a+\<close>\<close>
  | Group string regex    \<comment> \<open>\<^verbatim>\<open>(?P<name>a)\<close>\<close>

record pattern =
  ignorecase :: bool
  body :: regex

fun group_names :: "regex \<Rightarrow> string list" where
  "group_names (Seq r1 r2) = group_names r1 @ group_names r2"
| "group_names (Alt r1 r2) = group_names r1 @ group_names r2"
| "group_names (Opt r) = group_names r"
| "group_names (Group n r) = n # group_names r"
| "group_names r = []"

fun lits :: "string \<Rightarrow> regex" where
  "lits [] = Eps"
| "lits (c # cs) = Seq (Atom (Ch c)) (lits cs)"

subsection \<open>Matching\<close>

text \<open>
  A matcher state is the position in the text, the text from that position on, and the
  groups captured so far (latest first). Matching a pattern in a state gives every state
  in which the pattern can end, in the order in which the backtracking matcher tries
  them: greedy items longest first, lazy items shortest first, alternatives left to
  right. The matcher returns the first of them.
\<close>

type_synonym mstate = "nat \<times> string \<times> (string \<times> string) list"

fun atom_ok :: "bool \<Rightarrow> atom \<Rightarrow> char \<Rightarrow> bool" where
  "atom_ok ic (Ch l) c = (if ic then lower_chr c = lower_chr l else c = l)"
| "atom_ok ic (OneOf ls) c = (if ic then lower_chr c \<in> set (map lower_chr ls) else c \<in> set ls)"
| "atom_ok ic Dot c = (c \<noteq> newline)"
| "atom_ok ic Space c = is_space c"

fun star_greedy :: "bool \<Rightarrow> atom \<Rightarrow> mstate \<Rightarrow> mstate list" where
  "star_greedy ic a (p, [], g) = [(p, [], g)]"
| "star_greedy ic a (p, c # cs, g) =
     (if atom_ok ic a c then star_greedy ic a (Suc p, cs, g) else []) @ [(p, c # cs, g)]"

fun star_lazy :: "bool \<Rightarrow> atom \<Rightarrow> mstate \<Rightarrow> mstate list" where
  "star_lazy ic a (p, [], g) = [(p, [], g)]"
| "star_lazy ic a (p, c # cs, g) =
     (p, c # cs, g) # (if atom_ok ic a c then star_lazy ic a (Suc p, cs, g) else [])"

fun rmatch :: "bool \<Rightarrow> regex \<Rightarrow> mstate \<Rightarrow> mstate list" where
  "rmatch ic Eps st = [st]"
| "rmatch ic (Atom a) (p, [], g) = []"
| "rmatch ic (Atom a) (p, c # cs, g) = (if atom_ok ic a c then [(Suc p, cs, g)] else [])"
| "rmatch ic Bol (p, s, g) = (if p = 0 then [(p, s, g)] else [])"
| "rmatch ic Eol (p, s, g) = (if s = [] \<or> s = [newline] then [(p, s, g)] else [])"
| "rmatch ic (Seq r1 r2) st = concat (map (rmatch ic r2) (rmatch ic r1 st))"
| "rmatch ic (Alt r1 r2) st = rmatch ic r1 st @ rmatch ic r2 st"
| "rmatch ic (Opt r) st = rmatch ic r st @ [st]"
| "rmatch ic (Star a) st = star_greedy ic a st"
| "rmatch ic (StarLazy a) st = star_lazy ic a st"
| "rmatch ic (Plus a) (p, [], g) = []"
| "rmatch ic (Plus a) (p, c # cs, g) =
     (if atom_ok ic a c then star_greedy ic a (Suc p, cs, g) else [])"
| "rmatch ic (Group n r) (p, s, g) =
     map (\<lambda>(p', s', g'). (p', s', (n, take (p' - p) s) # g')) (rmatch ic r (p, s, g))"

record match_obj =
  re :: pattern
  span_start :: nat
  span_end :: nat
  captures :: "(string \<times> string) list"

definition match_at :: "pattern \<Rightarrow> nat \<Rightarrow> string \<Rightarrow> match_obj option" where
  "match_at pt p s =
     (case rmatch (ignorecase pt) (body pt) (p, s, []) of
        [] \<Rightarrow> None
      | (e, _, g) # _ \<Rightarrow> Some \<lparr>re = pt, span_start = p, span_end = e, captures = g\<rparr>)"

text \<open>\<^verbatim>\<open>pattern.match(s)\<close>: a match that starts at the beginning of \<open>s\<close>.\<close>

definition re_match :: "pattern \<Rightarrow> string \<Rightarrow> match_obj option" where
  "re_match pt s = match_at pt 0 s"

text \<open>\<^verbatim>\<open>pattern.search(s)\<close>: the match at the leftmost position that has one.\<close>

fun search_from :: "pattern \<Rightarrow> nat \<Rightarrow> string \<Rightarrow> match_obj option" where
  "search_from pt p [] = match_at pt p []"
| "search_from pt p (c # cs) =
     (case match_at pt p (c # cs) of
        Some m \<Rightarrow> Some m
      | None \<Rightarrow> search_from pt (Suc p) cs)"

definition re_search :: "pattern \<Rightarrow> string \<Rightarrow> match_obj option" where
  "re_search pt s = search_from pt 0 s"

text \<open>
  \<^verbatim>\<open>match.group(name)\<close>: an error for a name the pattern does not have,
  \<^verbatim>\<open>None\<close> for a group that took no part in the match, else the captured text.
\<close>

definition group :: "match_obj \<Rightarrow> string \<Rightarrow> error + string option" where
  "group m n =
     (if n \<in> set (group_names (body (re m))) then Inr (map_of (captures m) n)
      else Inl IndexError)"

subsection \<open>The pattern catalogues\<close>

definition bracketed :: "regex \<Rightarrow> pattern" where
  \<comment> \<open>\<^verbatim>\<open>(?i)(?P<junk>[\(\[\{].*?KEYWORD.*?[\)\]\}])\<close>\<close>
  "bracketed kw =
     \<lparr>ignorecase = True,
      body = Group ''junk''
        (Seq (Atom (OneOf ''([{''))
        (Seq (StarLazy Dot)
        (Seq kw
        (Seq (StarLazy Dot)
             (Atom (OneOf '')]}''))))))\<rparr>"

definition YOUTUBE_TITLE_JUNK :: "pattern list" where
  "YOUTUBE_TITLE_JUNK =
     [bracketed (Alt (lits ''Explicit'')
                (Alt (lits ''Clean'')
                     (Seq (lits ''Parental'') (Seq (Atom Space) (lits ''Advisory''))))),
      bracketed (Alt (lits ''HQ'') (Alt (lits ''HD'') (lits ''CDQ''))),
      bracketed (lits ''Audio''),
      bracketed (lits ''Album''),
      bracketed (lits ''Song''),
      bracketed (lits ''Video''),
      bracketed (lits ''Lyric''),
      bracketed (lits ''Visualizer''),
      bracketed (lits ''iTunes''),
      bracketed (lits ''Official''),
      bracketed (lits ''Original''),
      bracketed (lits ''Version''),
      bracketed (Seq (lits ''Prod'')
                (Seq (Opt (Alt (lits ''uced'') (Atom (Ch CHR ''.''))))
                (Seq (Atom Space) (lits ''By''))))]"

definition separators :: "char list" where
  "separators = ''-_|''"

definition strip_leading :: pattern where
  \<comment> \<open>\<^verbatim>\<open>^\s*[-_\|]\s*(?P<title>.+)$\<close>\<close>
  "strip_leading =
     \<lparr>ignorecase = False,
      body = Seq Bol (Seq (Star Space) (Seq (Atom (OneOf separators))
            (Seq (Star Space) (Seq (Group ''title'' (Plus Dot)) Eol))))\<rparr>"

definition strip_trailing :: pattern where
  \<comment> \<open>\<^verbatim>\<open>^(?P<title>.+)\s*[-_\|]\s*$\<close>\<close>
  "strip_trailing =
     \<lparr>ignorecase = False,
      body = Seq Bol (Seq (Group ''title'' (Plus Dot)) (Seq (Star Space)
            (Seq (Atom (OneOf separators)) (Seq (Star Space) Eol))))\<rparr>"

definition EXTRA_STRIP_PATTERNS :: "pattern list" where
  "EXTRA_STRIP_PATTERNS = [strip_leading, strip_trailing]"

subsection \<open>Patterns built from a name\<close>

text \<open>
  \<^verbatim>\<open>re.escape(name)\<close> puts a backslash before each of the characters
  \<^verbatim>\<open>()[]{}?*+-|^$\.&~#\<close>, the blank, and tab, newline, carriage return, vertical
  tab and form feed.
\<close>

definition backslash :: char where
  "backslash = CHR 0x5C"

definition escaped_chars :: "char list" where
  "escaped_chars =
     ''()[]{}?*+-|^$'' @ [backslash] @ ''.&~# '' @ [CHR 0x09, CHR 0x0A, CHR 0x0D, CHR 0x0B, CHR 0x0C]"

fun re_escape :: "string \<Rightarrow> string" where
  "re_escape [] = []"
| "re_escape (c # cs) =
     (if c \<in> set escaped_chars then backslash # c # re_escape cs else c # re_escape cs)"

text \<open>
  How \<^verbatim>\<open>re.compile\<close> reads a stretch of pattern text made of literal characters:
  a backslash before a character that is no ASCII letter or digit stands for that
  character, any other character outside \<^verbatim>\<open>.\[{()*+?^$|\<close> stands for itself.
  The result is \<open>None\<close> for text that is not such a stretch (an operator, a class
  escape, or a dangling backslash).
\<close>

definition special_chars :: "char list" where
  "special_chars = ''.[{()*+?^$|'' @ [backslash]"

definition ascii_alnum :: "char \<Rightarrow> bool" where
  "ascii_alnum c =
     (let n = (of_char c :: nat)
      in (48 \<le> n \<and> n \<le> 57) \<or> (65 \<le> n \<and> n \<le> 90) \<or> (97 \<le> n \<and> n \<le> 122))"

fun literal_run :: "string \<Rightarrow> regex option" where
  "literal_run [] = Some Eps"
| "literal_run [c] =
     (if c \<in> set special_chars then None else Some (Seq (Atom (Ch c)) Eps))"
| "literal_run (c # d # cs) =
     (if c = backslash
      then (if ascii_alnum d then None
            else map_option (Seq (Atom (Ch d))) (literal_run cs))
      else if c \<in> set special_chars then None
      else map_option (Seq (Atom (Ch c))) (literal_run (d # cs)))"

text \<open>
  Both builders are memoised with \<^verbatim>\<open>lru_cache\<close>; they are pure, so the cache does
  not change what they return and is left out.
\<close>

definition remove_album_name_pattern :: "string \<Rightarrow> error + pattern" where
  \<comment> \<open>\<^verbatim>\<open>(?i)(?P<junk>\({0}\))\<close>\<close>
  "remove_album_name_pattern album_name =
     (case literal_run (re_escape album_name) of
        None \<Rightarrow> Inl PatternError
      | Some r \<Rightarrow>
          Inr \<lparr>ignorecase = True,
               body = Group ''junk''
                 (Seq (Atom (Ch CHR ''('')) (Seq r (Atom (Ch CHR '')''))))\<rparr>)"

definition remove_artist_name_pattern :: "string \<Rightarrow> error + pattern" where
  \<comment> \<open>\<^verbatim>\<open>(?i)(?P<junk>\(?{0}\)?)\<close>\<close>
  "remove_artist_name_pattern artist_name =
     (case literal_run (re_escape artist_name) of
        None \<Rightarrow> Inl PatternError
      | Some r \<Rightarrow>
          Inr \<lparr>ignorecase = True,
               body = Group ''junk''
                 (Seq (Opt (Atom (Ch CHR ''(''))) (Seq r (Opt (Atom (Ch CHR '')'')))))\<rparr>)"

section \<open>Paths\<close>

text \<open>
  A \<^verbatim>\<open>pathlib.Path\<close> on a POSIX system: the root (\<^verbatim>\<open>/\<close>, \<^verbatim>\<open>//\<close> or none) and the
  components, with empty components and \<^verbatim>\<open>.\<close> dropped when the path is built.
\<close>

record ppath =
  root :: string
  names :: "string list"

fun split_on :: "char \<Rightarrow> string \<Rightarrow> string list" where
  "split_on sep [] = [[]]"
| "split_on sep (c # cs) =
     (if c = sep then [] # split_on sep cs
      else (case split_on sep cs of
              [] \<Rightarrow> [[c]]
            | x # xs \<Rightarrow> (c # x) # xs))"

definition Path :: "string \<Rightarrow> ppath" where
  "Path s =
     \<lparr>root = (let n = length (takeWhile (\<lambda>c. c = CHR ''/'') s)
              in if n = 0 then [] else if n = 2 then ''//'' else ''/''),
      names = filter (\<lambda>x. x \<noteq> [] \<and> x \<noteq> ''.'') (split_on CHR ''/'' s)\<rparr>"

definition name :: "ppath \<Rightarrow> string" where
  "name p = (if names p = [] then [] else last (names p))"

definition parent :: "ppath \<Rightarrow> ppath" where
  "parent p = p\<lparr>names := butlast (names p)\<rparr>"

fun rfind :: "string \<Rightarrow> char \<Rightarrow> nat option" where
  "rfind [] c = None"
| "rfind (x # xs) c =
     (case rfind xs c of
        Some i \<Rightarrow> Some (Suc i)
      | None \<Rightarrow> if x = c then Some 0 else None)"

definition stem :: "ppath \<Rightarrow> string" where
  \<comment> \<open>the name up to its last dot, unless that dot is the first or the last character\<close>
  "stem p =
     (let n = name p
      in case rfind n CHR ''.'' of
           None \<Rightarrow> n
         | Some i \<Rightarrow> if 0 < i \<and> Suc i < length n then take i n else n)"

definition track_title_from_path :: "ppath \<Rightarrow> string" where
  "track_title_from_path p = stem p"

definition album_name_from_path :: "ppath \<Rightarrow> string" where
  "album_name_from_path p = name (parent p)"

definition artist_name_from_path :: "ppath \<Rightarrow> string" where
  "artist_name_from_path p = name (parent (parent p))"

section \<open>The plugin\<close>

text \<open>
  An item carries its path and the three fields the plugin may set; a field that is
  \<open>None\<close> or empty is false in a condition. The record's extension stands for every
  other field of an item. The path is the text that \<^verbatim>\<open>displayable_path\<close> gives for
  the item.
\<close>

record item =
  path :: string
  title :: "string option"
  album :: "string option"
  artist :: "string option"

definition truthy :: "string option \<Rightarrow> bool" where
  "truthy v = (case v of None \<Rightarrow> False | Some s \<Rightarrow> s \<noteq> [])"

record plugin =
  infer_album :: bool
  infer_artist :: bool

text \<open>
  A task as \<^verbatim>\<open>clean_youtube_metadata\<close> reads it: whether it is a
  \<^verbatim>\<open>SingletonImportTask\<close>, its \<^verbatim>\<open>is_album\<close>, and the attributes \<^verbatim>\<open>item\<close>
  (absent on a task that has none) and \<^verbatim>\<open>items\<close>.
\<close>

record 'a import_task =
  is_singleton :: bool
  is_album :: bool
  task_item :: "'a item_scheme option"
  task_items :: "'a item_scheme list"

subsection \<open>Cleaning a title\<close>

definition junk_step :: "string \<Rightarrow> pattern \<Rightarrow> error + string" where
  \<comment> \<open>one round of the first loop of \<^verbatim>\<open>_replace_junk\<close>\<close>
  "junk_step new_title pt =
     (case re_search pt new_title of
        None \<Rightarrow> Inr new_title
      | Some match_obj \<Rightarrow>
          (case group match_obj ''junk'' of
             Inl e \<Rightarrow> Inl e
           | Inr None \<Rightarrow> Inl TypeError
           | Inr (Some junk) \<Rightarrow> Inr (str_replace new_title junk)))"

fun junk_loop :: "string \<Rightarrow> pattern list \<Rightarrow> error + string" where
  "junk_loop new_title [] = Inr new_title"
| "junk_loop new_title (pt # patterns) =
     (case junk_step new_title pt of
        Inl e \<Rightarrow> Inl e
      | Inr t \<Rightarrow> junk_loop t patterns)"

definition strip_step :: "string \<Rightarrow> pattern \<Rightarrow> error + string" where
  \<comment> \<open>one round of the second loop; a group that took no part cannot be the new title\<close>
  "strip_step new_title pt =
     (case re_match pt new_title of
        None \<Rightarrow> Inr new_title
      | Some match_obj \<Rightarrow>
          (case group match_obj ''title'' of
             Inl e \<Rightarrow> Inl e
           | Inr None \<Rightarrow> Inl TypeError
           | Inr (Some t) \<Rightarrow> Inr t))"

fun strip_loop :: "string \<Rightarrow> pattern list \<Rightarrow> error + string" where
  "strip_loop new_title [] = Inr new_title"
| "strip_loop new_title (pt # patterns) =
     (case strip_step new_title pt of
        Inl e \<Rightarrow> Inl e
      | Inr t \<Rightarrow> strip_loop t patterns)"

definition replace_junk :: "string \<Rightarrow> pattern list \<Rightarrow> error + string" where
  "replace_junk title_in patterns =
     (case junk_loop title_in patterns of
        Inl e \<Rightarrow> Inl e
      | Inr new_title \<Rightarrow> strip_loop (str_strip new_title) EXTRA_STRIP_PATTERNS)"

subsection \<open>The hooks\<close>

definition specific_junk_patterns :: "plugin \<Rightarrow> ppath \<Rightarrow> error + pattern list" where
  "specific_junk_patterns self p =
     (case (if infer_album self
            then map_sum id (\<lambda>pt. [pt]) (remove_album_name_pattern (album_name_from_path p))
            else Inr []) of
        Inl e \<Rightarrow> Inl e
      | Inr ps \<Rightarrow>
          (if infer_artist self
           then (case remove_artist_name_pattern (artist_name_from_path p) of
                   Inl e \<Rightarrow> Inl e
                 | Inr pt \<Rightarrow> Inr (ps @ [pt]))
           else Inr ps))"

definition get_clean_title :: "plugin \<Rightarrow> 'a item_scheme \<Rightarrow> error + string" where
  "get_clean_title self it =
     (let p = Path (path it); raw_title = track_title_from_path p
      in case specific_junk_patterns self p of
           Inl e \<Rightarrow> Inl e
         | Inr ps \<Rightarrow> replace_junk raw_title (ps @ YOUTUBE_TITLE_JUNK))"

definition get_album :: "'a item_scheme \<Rightarrow> string" where
  "get_album it = album_name_from_path (Path (path it))"

definition get_artist :: "'a item_scheme \<Rightarrow> string" where
  "get_artist it = artist_name_from_path (Path (path it))"

definition set_title :: "plugin \<Rightarrow> 'a item_scheme \<Rightarrow> error + 'a item_scheme" where
  "set_title self it =
     (if \<not> truthy (title it)
      then (case get_clean_title self it of
              Inl e \<Rightarrow> Inl e
            | Inr t \<Rightarrow> Inr (it\<lparr>title := Some t\<rparr>))
      else Inr it)"

definition set_album :: "plugin \<Rightarrow> 'a item_scheme \<Rightarrow> 'a item_scheme" where
  "set_album self it =
     (if infer_album self \<and> \<not> truthy (album it)
      then it\<lparr>album := Some (get_album it)\<rparr> else it)"

definition set_artist :: "plugin \<Rightarrow> 'a item_scheme \<Rightarrow> 'a item_scheme" where
  "set_artist self it =
     (if infer_artist self \<and> \<not> truthy (artist it)
      then it\<lparr>artist := Some (get_artist it)\<rparr> else it)"

definition clean_item :: "plugin \<Rightarrow> 'a item_scheme \<Rightarrow> error + 'a item_scheme" where
  \<comment> \<open>the body of the loop over the items\<close>
  "clean_item self it =
     (case set_title self it of
        Inl e \<Rightarrow> Inl e
      | Inr it1 \<Rightarrow> Inr (set_artist self (set_album self it1)))"

fun clean_items :: "plugin \<Rightarrow> 'a item_scheme list \<Rightarrow> error + 'a item_scheme list" where
  "clean_items self [] = Inr []"
| "clean_items self (it # its) =
     (case clean_item self it of
        Inl e \<Rightarrow> Inl e
      | Inr it' \<Rightarrow>
          (case clean_items self its of
             Inl e \<Rightarrow> Inl e
           | Inr its' \<Rightarrow> Inr (it' # its')))"

definition task_selection :: "'a import_task \<Rightarrow> error + 'a item_scheme list" where
  \<comment> \<open>the items the hook goes through\<close>
  "task_selection task =
     (if is_singleton task \<or> \<not> is_album task
      then (case task_item task of
              None \<Rightarrow> Inl AttributeError
            | Some it \<Rightarrow> Inr [it])
      else Inr (task_items task))"

definition clean_youtube_metadata ::
  "plugin \<Rightarrow> 'a import_task \<Rightarrow> error + 'a item_scheme list" where
  "clean_youtube_metadata self task =
     (case task_selection task of
        Inl e \<Rightarrow> Inl e
      | Inr its \<Rightarrow> clean_items self its)"

section \<open>Notions used in the properties\<close>

text \<open>A text that neither begins nor ends with whitespace.\<close>

definition trimmed :: "string \<Rightarrow> bool" where
  "trimmed t = (t = [] \<or> (\<not> is_space (hd t) \<and> \<not> is_space (last t)))"

text \<open>
  What the leading-separator pattern leaves of a trimmed text: after a first separator
  and the whitespace behind it, the rest, provided there is a rest and it has no newline.
\<close>

definition lead_cut :: "string \<Rightarrow> string" where
  "lead_cut t =
     (case t of
        [] \<Rightarrow> []
      | c # cs \<Rightarrow>
          if c \<in> set separators \<and> dropWhile is_space cs \<noteq> []
             \<and> newline \<notin> set (dropWhile is_space cs)
          then dropWhile is_space cs else t)"

text \<open>A pattern whose outermost item is the group \<^verbatim>\<open>junk\<close>.\<close>

definition junk_pattern :: "pattern \<Rightarrow> bool" where
  "junk_pattern pt = (case body pt of Group n r \<Rightarrow> n = ''junk'' | _ \<Rightarrow> False)"

text \<open>
  The text \<open>s\<close> begins with \<open>n\<close>, upper and lower case taken as equal. The two
  functions after it say, in these terms, which junk a name pattern is meant to find at
  the start of a text: the album name in parentheses; the artist name with a parenthesis
  before it, after it, both or neither, the longer reading first.
\<close>

definition ci_prefix :: "string \<Rightarrow> string \<Rightarrow> bool" where
  "ci_prefix n s = (length n \<le> length s \<and> str_lower (take (length n) s) = str_lower n)"

definition album_junk_at :: "string \<Rightarrow> string \<Rightarrow> string option" where
  "album_junk_at n s =
     (if ci_prefix (''('' @ n @ '')'') s then Some (take (length n + 2) s) else None)"

definition artist_junk_at :: "string \<Rightarrow> string \<Rightarrow> string option" where
  "artist_junk_at n s =
     (if ci_prefix (''('' @ n @ '')'') s then Some (take (length n + 2) s)
      else if ci_prefix (''('' @ n) s then Some (take (length n + 1) s)
      else if ci_prefix (n @ '')'') s then Some (take (length n + 1) s)
      else if ci_prefix n s then Some (take (length n) s)
      else None)"

text \<open>The match object for junk \<open>j\<close> found at position \<open>p\<close>.\<close>

definition junk_match :: "pattern \<Rightarrow> nat \<Rightarrow> string \<Rightarrow> match_obj" where
  "junk_match pt p j =
     \<lparr>re = pt, span_start = p, span_end = p + length j, captures = [(''junk'', j)]\<rparr>"

text \<open>Deleting only the first occurrence of \<open>old\<close>, for comparison with \<^const>\<open>str_replace\<close>.\<close>

fun delete_first :: "string \<Rightarrow> string \<Rightarrow> string" where
  "delete_first [] old = []"
| "delete_first (c # cs) old =
     (if prefix old (c # cs) then drop (length old) (c # cs) else c # delete_first cs old)"

text \<open>
  What the hook may change of an item: nothing but title, album and artist, and none of
  these when it is filled already; album and artist only with their option switched on.
\<close>

definition fields_kept :: "plugin \<Rightarrow> 'a item_scheme \<Rightarrow> 'a item_scheme \<Rightarrow> bool" where
  "fields_kept self it it' =
     (path it' = path it \<and> item.more it' = item.more it
      \<and> (truthy (title it) \<longrightarrow> title it' = title it)
      \<and> (truthy (album it) \<or> \<not> infer_album self \<longrightarrow> album it' = album it)
      \<and> (truthy (artist it) \<or> \<not> infer_artist self \<longrightarrow> artist it' = artist it))"

section \<open>Lemmas\<close>

lemma str_replace_empty: "str_replace s [] = s"
  by (induction s) simp_all

lemma lower_chr_low:
  assumes "lower_chr c = l" and "(of_char l :: nat) < 65 \<or> (122 < (of_char l :: nat) \<and> (of_char l :: nat) < 192)"
  shows "c = l"
  using assms unfolding lower_chr_def Let_def
  by (auto split: if_splits simp: of_char_mod_256)

lemma lower_chr_fix:
  "(of_char l :: nat) < 65 \<or> (122 < (of_char l :: nat) \<and> (of_char l :: nat) < 192) \<Longrightarrow> lower_chr l = l"
  unfolding lower_chr_def Let_def by auto

lemma lower_chr_uncased:
  "(of_char l :: nat) < 65 \<or> (122 < (of_char l :: nat) \<and> (of_char l :: nat) < 192) \<Longrightarrow> (lower_chr c = l) = (c = l)"
  using lower_chr_low lower_chr_fix by blast

lemma lower_chr_lparen: "(lower_chr c = CHR ''('') = (c = CHR ''('')"
  by (rule lower_chr_uncased) simp


lemma lower_chr_lbracket: "(lower_chr c = CHR ''['') = (c = CHR ''['')"
  unfolding lower_chr_def Let_def
  by (auto split: if_splits simp: of_char_mod_256 dest!: arg_cong [where f = "of_char :: char \<Rightarrow> nat"])

lemma lower_chr_lbrace: "(lower_chr c = CHR ''{'') = (c = CHR ''{'')"
  by (rule lower_chr_uncased) simp

lemma is_space_newline: "is_space newline"
  by (simp add: is_space_def newline_def)

lemma is_space_not_sep: "is_space c \<Longrightarrow> c \<notin> set separators"
  by (auto simp: is_space_def separators_def)

lemma opener_ci: "lower_chr c \<in> set (map lower_chr ''([{'') \<longleftrightarrow> c \<in> set ''([{''"
proof -
  have m: "map lower_chr ''([{'' = ''([{''" by code_simp
  show ?thesis unfolding m
    by (simp add: lower_chr_lparen lower_chr_lbracket lower_chr_lbrace)
qed

lemma is_space_not_opener: "is_space c \<Longrightarrow> c \<notin> set ''([{''"
  by (auto simp: is_space_def)

lemma sep_not_opener: "c \<in> set separators \<Longrightarrow> c \<notin> set ''([{''"
  by (auto simp: separators_def)

lemma not_space_sep: "c \<in> set separators \<Longrightarrow> \<not> is_space c"
  by (auto simp: is_space_def separators_def)

subsection \<open>Trimming\<close>

lemma strip_right_snoc:
  "rev (dropWhile P (rev (xs @ [x]))) = (if P x then rev (dropWhile P (rev xs)) else xs @ [x])"
  by simp

lemma strip_right_props:
  "rev (dropWhile P (rev u)) \<noteq> [] \<Longrightarrow>
     hd (rev (dropWhile P (rev u))) = hd u \<and> \<not> P (last (rev (dropWhile P (rev u))))"
proof (induction u rule: rev_induct)
  case Nil
  then show ?case by simp
next
  case (snoc x xs)
  show ?case
  proof (cases "P x")
    case True
    with snoc have "rev (dropWhile P (rev xs)) \<noteq> []" by simp
    with snoc.IH have "hd (rev (dropWhile P (rev xs))) = hd xs \<and> \<not> P (last (rev (dropWhile P (rev xs))))"
      by simp
    moreover from \<open>rev (dropWhile P (rev xs)) \<noteq> []\<close> have "xs \<noteq> []" by auto
    ultimately show ?thesis using True by simp
  next
    case False
    then show ?thesis by simp
  qed
qed

lemma trimmed_str_strip: "trimmed (str_strip s)"
proof (cases "str_strip s = []")
  case True
  then show ?thesis by (simp add: trimmed_def)
next
  case False
  let ?u = "dropWhile is_space s"
  from False have ne: "rev (dropWhile is_space (rev ?u)) \<noteq> []"
    by (simp add: str_strip_def)
  have "?u \<noteq> []"
  proof
    assume "?u = []"
    with ne show False by simp
  qed
  then have "\<not> is_space (hd ?u)" by (rule hd_dropWhile)
  with strip_right_props [OF ne] show ?thesis
    by (simp add: trimmed_def str_strip_def)
qed

lemma str_strip_trimmed:
  assumes "trimmed t"
  shows "str_strip t = t"
proof (cases "t = []")
  case True
  then show ?thesis by (simp add: str_strip_def)
next
  case False
  with assms have h: "\<not> is_space (hd t)" and l: "\<not> is_space (last t)"
    by (simp_all add: trimmed_def)
  from False h have d: "dropWhile is_space t = t"
    by (cases t) simp_all
  from False l have "dropWhile is_space (rev t) = rev t"
    by (cases t rule: rev_cases) simp_all
  with d show ?thesis by (simp add: str_strip_def)
qed

subsection \<open>Repetition\<close>

lemma star_greedy_hd:
  "\<exists>rest. star_greedy ic a (p, s, g) =
     (p + length (takeWhile (atom_ok ic a) s), dropWhile (atom_ok ic a) s, g) # rest"
proof (induction s arbitrary: p)
  case Nil
  show ?case by simp
next
  case (Cons c cs)
  show ?case
  proof (cases "atom_ok ic a c")
    case True
    from Cons [of "Suc p"] obtain rest where
      "star_greedy ic a (Suc p, cs, g) =
         (Suc p + length (takeWhile (atom_ok ic a) cs), dropWhile (atom_ok ic a) cs, g) # rest"
      by blast
    with True show ?thesis by simp
  next
    case False
    then show ?thesis by simp
  qed
qed

lemma star_greedy_mem:
  "x \<in> set (star_greedy ic a (p, s, g)) \<Longrightarrow>
     \<exists>k\<le>length s. x = (p + k, drop k s, g) \<and> list_all (atom_ok ic a) (take k s)"
proof (induction s arbitrary: p)
  case Nil
  then show ?case by simp
next
  case (Cons c cs)
  from Cons.prems consider
      (rec) "atom_ok ic a c" "x \<in> set (star_greedy ic a (Suc p, cs, g))"
    | (stop) "x = (p, c # cs, g)"
    by (auto split: if_splits)
  then show ?case
  proof cases
    case rec
    from Cons.IH [OF rec(2)] obtain k where
      "k \<le> length cs" "x = (Suc p + k, drop k cs, g)" "list_all (atom_ok ic a) (take k cs)"
      by blast
    with rec(1) show ?thesis
      by (intro exI [of _ "Suc k"]) simp
  next
    case stop
    then show ?thesis by (intro exI [of _ 0]) simp
  qed
qed

lemma star_dot_eol:
  "concat (map (rmatch ic Eol) (star_greedy ic Dot (p, s, g))) =
     (let m = length (takeWhile (atom_ok ic Dot) s)
      in if drop m s = [] \<or> drop m s = [newline] then [(p + m, drop m s, g)] else [])"
proof (induction s arbitrary: p)
  case Nil
  show ?case by simp
next
  case (Cons c cs)
  show ?case
  proof (cases "c = newline")
    case True
    then show ?thesis by simp
  next
    case False
    then have "concat (map (rmatch ic Eol) (star_greedy ic Dot (p, c # cs, g))) =
        concat (map (rmatch ic Eol) (star_greedy ic Dot (Suc p, cs, g)))"
      by simp
    also note Cons.IH [of "Suc p"]
    finally show ?thesis using False by (simp add: Let_def)
  qed
qed

lemma eol_after_capture:
  "concat (map (rmatch ic Eol) (map (\<lambda>(p', s', g'). (p', s', h p' # g')) xs)) =
     map (\<lambda>(p', s', g'). (p', s', h p' # g')) (concat (map (rmatch ic Eol) xs))"
  by (induction xs) auto

lemma title_line:
  "rmatch ic (Seq (Group n (Plus Dot)) Eol) (p, s, g) =
     (let m = length (takeWhile (atom_ok ic Dot) s)
      in if 0 < m \<and> (drop m s = [] \<or> drop m s = [newline])
         then [(p + m, drop m s, (n, take m s) # g)] else [])"
proof (cases s)
  case Nil
  then show ?thesis by simp
next
  case (Cons c cs)
  show ?thesis
  proof (cases "c = newline")
    case True
    with Cons show ?thesis by simp
  next
    case False
    let ?f = "\<lambda>(p', s', g'). (p', s', (n, take (p' - p) (c # cs)) # g')"
    let ?m = "length (takeWhile (atom_ok ic Dot) cs)"
    from False have "rmatch ic (Seq (Group n (Plus Dot)) Eol) (p, c # cs, g) =
        concat (map (rmatch ic Eol) (map ?f (star_greedy ic Dot (Suc p, cs, g))))"
      by (simp del: map_map)
    also have "\<dots> = map ?f (concat (map (rmatch ic Eol) (star_greedy ic Dot (Suc p, cs, g))))"
      by (rule eol_after_capture [where h = "\<lambda>p'. (n, take (p' - p) (c # cs))"])
    also have "\<dots> = map ?f (if drop ?m cs = [] \<or> drop ?m cs = [newline]
                             then [(Suc p + ?m, drop ?m cs, g)] else [])"
      by (simp only: star_dot_eol Let_def)
    finally show ?thesis using False Cons by (simp add: Let_def)
  qed
qed

subsection \<open>The leading separator\<close>

lemma dropWhile_drop_all:
  "list_all P (take k xs) \<Longrightarrow> dropWhile P (drop k xs) = dropWhile P xs"
proof (induction xs arbitrary: k)
  case Nil
  show ?case by simp
next
  case (Cons x xs)
  then show ?case by (cases k) simp_all
qed

lemma takeWhile_all_length:
  "(drop (length (takeWhile P s)) s = []) = (\<forall>x\<in>set s. P x)"
proof
  assume "drop (length (takeWhile P s)) s = []"
  then have "length s \<le> length (takeWhile P s)" by simp
  moreover have "length (takeWhile P s) \<le> length s" by (rule length_takeWhile_le)
  ultimately have "length (takeWhile P s) = length s" by simp
  moreover have "length (takeWhile P s) + length (dropWhile P s) = length s"
    by (simp flip: length_append)
  ultimately have "dropWhile P s = []" by simp
  then have "takeWhile P s = s"
    using takeWhile_dropWhile_id [of P s] by simp
  then show "\<forall>x\<in>set s. P x" by (simp add: takeWhile_eq_all_conv)
next
  assume "\<forall>x\<in>set s. P x"
  then have tw: "takeWhile P s = s" by (simp add: takeWhile_eq_all_conv)
  show "drop (length (takeWhile P s)) s = []" by (simp add: tw)
qed

lemma title_line_none:
  assumes "s = [] \<or> newline \<in> set s" and "s = [] \<or> last s \<noteq> newline"
  shows "rmatch ic (Seq (Group n (Plus Dot)) Eol) (p, s, g) = []"
proof -
  let ?m = "length (takeWhile (atom_ok ic Dot) s)"
  have "\<not> (0 < ?m \<and> (drop ?m s = [] \<or> drop ?m s = [newline]))"
  proof
    assume h: "0 < ?m \<and> (drop ?m s = [] \<or> drop ?m s = [newline])"
    then have ne: "s \<noteq> []" by auto
    from h consider "drop ?m s = []" | "drop ?m s = [newline]" by blast
    then show False
    proof cases
      case 1
      then have "\<forall>x\<in>set s. atom_ok ic Dot x" by (simp only: takeWhile_all_length)
      with assms(1) ne show False by auto
    next
      case 2
      then have "?m < length s" by (cases "?m < length s") simp_all
      then have "last (drop ?m s) = last s" by (rule last_drop)
      with 2 assms(2) ne show False by simp
    qed
  qed
  then show ?thesis unfolding title_line Let_def by simp
qed

lemma title_line_all:
  assumes "s \<noteq> []" and "newline \<notin> set s"
  shows "rmatch ic (Seq (Group n (Plus Dot)) Eol) (p, s, g) = [(p + length s, [], (n, s) # g)]"
proof -
  from assms(2) have "\<forall>x\<in>set s. atom_ok ic Dot x" by auto
  then have tw: "takeWhile (atom_ok ic Dot) s = s" by (simp add: takeWhile_eq_all_conv)
  from assms(1) show ?thesis unfolding title_line Let_def by (simp add: tw)
qed

lemma atom_ok_Space: "atom_ok ic Space = is_space"
  by (rule ext) simp

lemma ignorecase_strip_leading: "ignorecase strip_leading = False"
  by (simp add: strip_leading_def)

lemma group_title_leading:
  "group \<lparr>re = strip_leading, span_start = a, span_end = b, captures = (''title'', v) # g\<rparr> ''title''
     = Inr (Some v)"
  by (simp add: group_def strip_leading_def)

lemma leading_after_sep:
  assumes "\<not> is_space c" and "c \<in> set separators"
  shows "rmatch False (body strip_leading) (0, c # cs, []) =
           concat (map (rmatch False (Seq (Group ''title'' (Plus Dot)) Eol))
                       (star_greedy False Space (Suc 0, cs, [])))"
  using assms by (simp add: strip_leading_def)

lemma leading_no_sep:
  assumes "\<not> is_space c" and "c \<notin> set separators"
  shows "rmatch False (body strip_leading) (0, c # cs, []) = []"
  using assms by (simp add: strip_leading_def)

lemma strip_leading_step:
  assumes "trimmed t"
  shows "strip_step t strip_leading = Inr (lead_cut t)"
proof (cases t)
  case Nil
  then show ?thesis
    by (simp add: strip_step_def re_match_def match_at_def strip_leading_def lead_cut_def)
next
  case (Cons c cs)
  with assms have c: "\<not> is_space c" and l: "\<not> is_space (last (c # cs))"
    by (simp_all add: trimmed_def)
  show ?thesis
  proof (cases "c \<in> set separators")
    case False
    with c Cons show ?thesis
      by (simp add: strip_step_def re_match_def match_at_def ignorecase_strip_leading leading_no_sep lead_cut_def)
  next
    case True
    let ?K = "Seq (Group ''title'' (Plus Dot)) Eol"
    let ?rest = "dropWhile is_space cs"
    let ?star = "star_greedy False Space (Suc 0, cs, [])"
    have R: "rmatch False (body strip_leading) (0, c # cs, []) = concat (map (rmatch False ?K) ?star)"
      using c True by (rule leading_after_sep)
    show ?thesis
    proof (cases "?rest \<noteq> [] \<and> newline \<notin> set ?rest")
      case yes: True
      from star_greedy_hd [of False Space "Suc 0" cs "[]"] obtain others where
        "?star = (Suc 0 + length (takeWhile is_space cs), ?rest, []) # others"
        by (auto simp: atom_ok_Space)
      moreover from yes have "rmatch False ?K (Suc 0 + length (takeWhile is_space cs), ?rest, []) =
          [(Suc 0 + length (takeWhile is_space cs) + length ?rest, [], [(''title'', ?rest)])]"
        by (intro title_line_all) simp_all
      ultimately obtain more where
        "concat (map (rmatch False ?K) ?star) =
           (Suc 0 + length (takeWhile is_space cs) + length ?rest, [], [(''title'', ?rest)]) # more"
        by simp
      with R have "re_match strip_leading (c # cs) =
          Some \<lparr>re = strip_leading, span_start = 0,
                span_end = Suc 0 + length (takeWhile is_space cs) + length ?rest,
                captures = [(''title'', ?rest)]\<rparr>"
        by (simp add: re_match_def match_at_def ignorecase_strip_leading)
      with yes True Cons show ?thesis
        by (simp add: strip_step_def group_title_leading lead_cut_def)
    next
      case no: False
      have "rmatch False ?K x = []" if "x \<in> set ?star" for x
      proof -
        from star_greedy_mem [OF that] obtain k where
          k: "k \<le> length cs" "x = (Suc 0 + k, drop k cs, [])" "list_all is_space (take k cs)"
          by (auto simp: atom_ok_Space)
        let ?s = "drop k cs"
        have rest: "dropWhile is_space ?s = ?rest"
          using k(3) by (rule dropWhile_drop_all)
        have last_ok: "\<not> is_space (last ?s)" if "?s \<noteq> []"
        proof -
          from that have "k < length cs" by simp
          then have "last ?s = last cs" by (rule last_drop)
          moreover from that have "cs \<noteq> []" by auto
          ultimately show ?thesis using l by simp
        qed
        have a: "?s = [] \<or> newline \<in> set ?s"
        proof (cases "?rest = []")
          case True
          with rest have "\<forall>y\<in>set ?s. is_space y" by (simp add: dropWhile_eq_Nil_conv)
          with last_ok have "?s = []" using last_in_set by blast
          then show ?thesis ..
        next
          case False
          with no have "newline \<in> set ?rest" by blast
          with rest have "newline \<in> set (dropWhile is_space ?s)" by simp
          then have "newline \<in> set ?s" by (rule set_dropWhileD)
          then show ?thesis ..
        qed
        have b: "?s = [] \<or> last ?s \<noteq> newline"
          using last_ok is_space_newline by auto
        from a b show ?thesis unfolding k(2) by (rule title_line_none)
      qed
      then have "concat (map (rmatch False ?K) ?star) = []" by simp
      with R have "re_match strip_leading (c # cs) = None"
        by (simp add: re_match_def match_at_def ignorecase_strip_leading)
      with no True Cons show ?thesis
        by (auto simp: strip_step_def lead_cut_def)
    qed
  qed
qed

subsection \<open>The trailing separator\<close>

lemma seq_mem:
  "y \<in> set (rmatch ic (Seq r1 r2) st) \<longleftrightarrow>
     (\<exists>x\<in>set (rmatch ic r1 st). y \<in> set (rmatch ic r2 x))"
  by simp

lemma group_mem:
  assumes "z \<in> set (rmatch ic (Group n r) (p, s, g))"
  shows "\<exists>p' s' g'. (p', s', g') \<in> set (rmatch ic r (p, s, g))
            \<and> z = (p', s', (n, take (p' - p) s) # g')"
  using assms by auto

lemma ignorecase_strip_trailing: "ignorecase strip_trailing = False"
  by (simp add: strip_trailing_def)

lemma body_strip_trailing:
  "body strip_trailing =
     Seq Bol (Seq (Group ''title'' (Plus Dot))
       (Seq (Star Space) (Seq (Atom (OneOf separators)) (Seq (Star Space) Eol))))"
  by (simp add: strip_trailing_def)

lemma plus_mem:
  assumes "x \<in> set (rmatch ic (Plus a) (p, s, g))"
  shows "\<exists>k. 0 < k \<and> k \<le> length s \<and> x = (p + k, drop k s, g)"
proof (cases s)
  case Nil
  with assms show ?thesis by simp
next
  case (Cons c cs)
  with assms have "x \<in> set (star_greedy ic a (Suc p, cs, g))"
    by (simp split: if_splits)
  from star_greedy_mem [OF this] obtain k where
    "k \<le> length cs" "x = (Suc p + k, drop k cs, g)" by blast
  with Cons show ?thesis by (intro exI [of _ "Suc k"]) simp
qed

lemma space_eol_mem:
  assumes "y \<in> set (rmatch ic (Seq (Star Space) Eol) (p, s, g))"
  shows "snd (snd y) = g \<and> (\<forall>c\<in>set s. is_space c)"
proof -
  from assms obtain x where x: "x \<in> set (rmatch ic (Star Space) (p, s, g))"
    and y: "y \<in> set (rmatch ic Eol x)" unfolding seq_mem by blast
  from x have x: "x \<in> set (star_greedy ic Space (p, s, g))" by simp
  from star_greedy_mem [OF x] obtain k where
    k: "x = (p + k, drop k s, g)" "list_all is_space (take k s)"
    by (auto simp: atom_ok_Space)
  from y k(1) have e: "drop k s = [] \<or> drop k s = [newline]" and g: "snd (snd y) = g"
    by (auto split: if_splits)
  from e have "\<forall>c\<in>set (drop k s). is_space c"
    using is_space_newline by auto
  moreover from k(2) have "\<forall>c\<in>set (take k s). is_space c"
    by (simp add: list_all_iff)
  moreover have "set s = set (take k s) \<union> set (drop k s)"
    by (metis append_take_drop_id set_append)
  ultimately have "\<forall>c\<in>set s. is_space c" by blast
  with g show ?thesis by simp
qed

lemma sep_tail_mem:
  assumes "y \<in> set (rmatch False
      (Seq (Star Space) (Seq (Atom (OneOf separators)) (Seq (Star Space) Eol))) (p, s, g))"
  shows "snd (snd y) = g \<and> s \<noteq> [] \<and> (last s \<in> set separators \<or> is_space (last s))"
proof -
  from assms obtain x where x: "x \<in> set (rmatch False (Star Space) (p, s, g))"
    and y: "y \<in> set (rmatch False (Seq (Atom (OneOf separators)) (Seq (Star Space) Eol)) x)"
    unfolding seq_mem [of y False "Star Space"] by blast
  from x have x: "x \<in> set (star_greedy False Space (p, s, g))" by simp
  from star_greedy_mem [OF x] obtain k where k: "x = (p + k, drop k s, g)" by blast
  from y obtain v where v: "v \<in> set (rmatch False (Atom (OneOf separators)) x)"
    and y3: "y \<in> set (rmatch False (Seq (Star Space) Eol) v)"
    unfolding seq_mem [of y False "Atom (OneOf separators)"] by blast
  from v k obtain d s3 where d: "drop k s = d # s3" "d \<in> set separators"
    and v': "v = (Suc (p + k), s3, g)"
    by (cases "drop k s") (auto split: if_splits)
  note y3 = y3 [unfolded v']
  from space_eol_mem [OF y3] have g: "snd (snd y) = g" and sp: "\<forall>c\<in>set s3. is_space c"
    by simp_all
  from d(1) have ne: "s \<noteq> []" by auto
  from d(1) have "k < length s" by (cases "k < length s") simp_all
  then have "last s = last (drop k s)" by (simp add: last_drop)
  with d(1) have "last s = last (d # s3)" by simp
  with d(2) sp have "last s \<in> set separators \<or> is_space (last s)"
    by (cases s3 rule: rev_cases) auto
  with g ne show ?thesis by simp
qed

lemma trailing_mem:
  assumes "x \<in> set (rmatch False (body strip_trailing) (0, t, []))"
  shows "\<exists>k. 0 < k \<and> k \<le> length t \<and> snd (snd x) = [(''title'', take k t)]
             \<and> (last t \<in> set separators \<or> is_space (last t))"
proof -
  let ?T = "Seq (Star Space) (Seq (Atom (OneOf separators)) (Seq (Star Space) Eol))"
  from assms obtain b where b: "b \<in> set (rmatch False Bol (0, t, []))"
    and xb: "x \<in> set (rmatch False (Seq (Group ''title'' (Plus Dot)) ?T) b)"
    unfolding body_strip_trailing seq_mem [of x False Bol] by blast
  from b have b': "b = (0, t, [])" by simp
  from xb obtain z where z: "z \<in> set (rmatch False (Group ''title'' (Plus Dot)) (0, t, []))"
    and x: "x \<in> set (rmatch False ?T z)"
    unfolding b' seq_mem [of x False "Group ''title'' (Plus Dot)"] by blast
  from group_mem [OF z] obtain p' s' g' where w: "(p', s', g') \<in> set (rmatch False (Plus Dot) (0, t, []))"
    and zw: "z = (p', s', (''title'', take (p' - 0) t) # g')"
    by blast
  from plus_mem [OF w] obtain k where k: "0 < k" "k \<le> length t" "(p', s', g') = (0 + k, drop k t, [])"
    by blast
  with zw have z': "z = (k, drop k t, [(''title'', take k t)])" by simp
  from sep_tail_mem [OF x [unfolded z']]
  have g: "snd (snd x) = [(''title'', take k t)]" and ne: "drop k t \<noteq> []"
    and l: "last (drop k t) \<in> set separators \<or> is_space (last (drop k t))"
    by blast+
  from ne have "k < length t" by simp
  then have "last (drop k t) = last t" by (rule last_drop)
  with l k g show ?thesis by auto
qed

lemma group_title_trailing:
  "group \<lparr>re = strip_trailing, span_start = a, span_end = b, captures = (''title'', v) # g\<rparr> ''title''
     = Inr (Some v)"
  by (simp add: group_def strip_trailing_def)

lemma strip_trailing_step:
  "\<exists>t'. strip_step t strip_trailing = Inr t' \<and>
     (t' = t \<or> (\<exists>k. 0 < k \<and> k \<le> length t \<and> t' = take k t
                   \<and> (last t \<in> set separators \<or> is_space (last t))))"
proof (cases "rmatch False (body strip_trailing) (0, t, [])")
  case Nil
  then have "re_match strip_trailing t = None"
    by (simp add: re_match_def match_at_def ignorecase_strip_trailing)
  then show ?thesis by (simp add: strip_step_def)
next
  case (Cons x xs)
  then have "x \<in> set (rmatch False (body strip_trailing) (0, t, []))" by simp
  from trailing_mem [OF this] obtain k where
    k: "0 < k" "k \<le> length t" "snd (snd x) = [(''title'', take k t)]"
       "last t \<in> set separators \<or> is_space (last t)" by blast
  from Cons k(3) have "re_match strip_trailing t =
      Some \<lparr>re = strip_trailing, span_start = 0, span_end = fst x,
            captures = [(''title'', take k t)]\<rparr>"
    by (cases x) (simp add: re_match_def match_at_def ignorecase_strip_trailing)
  then have "strip_step t strip_trailing = Inr (take k t)"
    by (simp add: strip_step_def group_title_trailing)
  with k show ?thesis by blast
qed

subsection \<open>Patterns whose whole match is the junk\<close>

lemma match_at_junk:
  assumes "junk_pattern pt" and "match_at pt p s = Some m"
  shows "\<exists>v g. captures m = (''junk'', v) # g \<and> re m = pt"
proof -
  from assms(1) obtain r where r: "body pt = Group ''junk'' r"
    by (auto simp: junk_pattern_def split: regex.splits)
  from assms(2) show ?thesis
    unfolding match_at_def r
    by (cases "rmatch (ignorecase pt) r (p, s, [])") (auto split: prod.splits)
qed

lemma search_from_junk:
  assumes "junk_pattern pt" and "search_from pt p s = Some m"
  shows "\<exists>v g. captures m = (''junk'', v) # g \<and> re m = pt"
  using assms(2)
proof (induction s arbitrary: p)
  case Nil
  then show ?case using match_at_junk [OF assms(1)] by simp
next
  case (Cons c cs)
  show ?case
  proof (cases "match_at pt p (c # cs)")
    case None
    with Cons.prems have "search_from pt (Suc p) cs = Some m" by simp
    then show ?thesis by (rule Cons.IH)
  next
    case (Some m')
    with Cons.prems have "m' = m" by simp
    with Some show ?thesis using match_at_junk [OF assms(1)] by simp
  qed
qed

lemma junk_step_total:
  assumes "junk_pattern pt"
  shows "\<exists>t'. junk_step t pt = Inr t'"
proof (cases "re_search pt t")
  case None
  then show ?thesis by (simp add: junk_step_def)
next
  case (Some m)
  then have "search_from pt 0 t = Some m" by (simp add: re_search_def)
  from search_from_junk [OF assms this] obtain v g where
    c: "captures m = (''junk'', v) # g" and r: "re m = pt" by blast
  from assms have "''junk'' \<in> set (group_names (body pt))"
    by (auto simp: junk_pattern_def split: regex.splits)
  with c r have "group m ''junk'' = Inr (Some v)" by (simp add: group_def)
  with Some show ?thesis by (simp add: junk_step_def)
qed

lemma junk_loop_total:
  "list_all junk_pattern ps \<Longrightarrow> \<exists>t'. junk_loop t ps = Inr t'"
proof (induction ps arbitrary: t)
  case Nil
  show ?case by simp
next
  case (Cons pt ps)
  then have "junk_pattern pt" and ps: "list_all junk_pattern ps" by simp_all
  from junk_step_total [OF this(1)] obtain t1 where "junk_step t pt = Inr t1" by blast
  moreover from Cons.IH [OF ps] obtain t2 where "junk_loop t1 ps = Inr t2" by blast
  ultimately show ?case by simp
qed

lemma junk_loop_no_match:
  "\<forall>pt\<in>set ps. re_search pt t = None \<Longrightarrow> junk_loop t ps = Inr t"
  by (induction ps) (simp_all add: junk_step_def)

lemma junk_pattern_bracketed: "junk_pattern (bracketed kw)"
  by (simp add: junk_pattern_def bracketed_def)

lemma static_bracketed: "pt \<in> set YOUTUBE_TITLE_JUNK \<Longrightarrow> \<exists>kw. pt = bracketed kw"
  unfolding YOUTUBE_TITLE_JUNK_def by auto

lemma static_junk_patterns: "list_all junk_pattern YOUTUBE_TITLE_JUNK"
  unfolding list_all_iff using static_bracketed junk_pattern_bracketed by blast

subsection \<open>Escaped names\<close>

lemma literal_run_plain:
  "c \<noteq> backslash \<Longrightarrow> c \<notin> set special_chars \<Longrightarrow>
     literal_run (c # rest) = map_option (Seq (Atom (Ch c))) (literal_run rest)"
  by (cases rest) simp_all

lemma literal_run_escaped:
  "\<not> ascii_alnum c \<Longrightarrow>
     literal_run (backslash # c # rest) = map_option (Seq (Atom (Ch c))) (literal_run rest)"
  by simp

lemma escaped_not_alnum: "c \<in> set escaped_chars \<Longrightarrow> \<not> ascii_alnum c"
  by (auto simp: escaped_chars_def ascii_alnum_def backslash_def)

lemma special_escaped: "c \<in> set special_chars \<Longrightarrow> c \<in> set escaped_chars"
  by (auto simp: escaped_chars_def special_chars_def)

lemma backslash_escaped: "backslash \<in> set escaped_chars"
  by (simp add: escaped_chars_def)

lemma literal_run_escape: "literal_run (re_escape s) = Some (lits s)"
proof (induction s)
  case Nil
  show ?case by simp
next
  case (Cons c cs)
  show ?case
  proof (cases "c \<in> set escaped_chars")
    case True
    then have "literal_run (re_escape (c # cs)) = literal_run (backslash # c # re_escape cs)"
      by simp
    also have "\<dots> = map_option (Seq (Atom (Ch c))) (literal_run (re_escape cs))"
      using escaped_not_alnum [OF True] by (rule literal_run_escaped)
    finally show ?thesis by (simp add: Cons.IH)
  next
    case False
    then have "literal_run (re_escape (c # cs)) = literal_run (c # re_escape cs)"
      by simp
    also have "\<dots> = map_option (Seq (Atom (Ch c))) (literal_run (re_escape cs))"
      using False backslash_escaped special_escaped by (intro literal_run_plain) auto
    finally show ?thesis by (simp add: Cons.IH)
  qed
qed

lemma album_pattern:
  "remove_album_name_pattern n =
     Inr \<lparr>ignorecase = True,
          body = Group ''junk'' (Seq (Atom (Ch CHR ''('')) (Seq (lits n) (Atom (Ch CHR '')''))))\<rparr>"
  by (simp add: remove_album_name_pattern_def literal_run_escape)

lemma artist_pattern:
  "remove_artist_name_pattern n =
     Inr \<lparr>ignorecase = True,
          body = Group ''junk''
            (Seq (Opt (Atom (Ch CHR ''(''))) (Seq (lits n) (Opt (Atom (Ch CHR '')'')))))\<rparr>"
  by (simp add: remove_artist_name_pattern_def literal_run_escape)

lemma specific_patterns_total:
  "\<exists>ps. specific_junk_patterns self p = Inr ps \<and> list_all junk_pattern ps"
  by (simp add: specific_junk_patterns_def album_pattern artist_pattern junk_pattern_def)

subsection \<open>The second loop\<close>

lemma strip_loop_extra:
  assumes "trimmed t"
  shows "\<exists>t'. strip_loop t EXTRA_STRIP_PATTERNS = Inr t' \<and>
           (t' = lead_cut t \<or>
            (\<exists>k. 0 < k \<and> k \<le> length (lead_cut t) \<and> t' = take k (lead_cut t)
                 \<and> (last (lead_cut t) \<in> set separators \<or> is_space (last (lead_cut t)))))"
proof -
  from strip_trailing_step [of "lead_cut t"] obtain t' where
    "strip_step (lead_cut t) strip_trailing = Inr t'"
    "t' = lead_cut t \<or>
       (\<exists>k. 0 < k \<and> k \<le> length (lead_cut t) \<and> t' = take k (lead_cut t)
            \<and> (last (lead_cut t) \<in> set separators \<or> is_space (last (lead_cut t))))"
    by blast
  with strip_leading_step [OF assms] show ?thesis
    by (simp add: EXTRA_STRIP_PATTERNS_def)
qed

lemma strip_loop_total: "trimmed t \<Longrightarrow> \<exists>t'. strip_loop t EXTRA_STRIP_PATTERNS = Inr t'"
  using strip_loop_extra by blast

lemma replace_junk_total:
  assumes "list_all junk_pattern ps"
  shows "\<exists>t'. replace_junk t ps = Inr t'"
proof -
  from junk_loop_total [OF assms] obtain t1 where "junk_loop t ps = Inr t1" by blast
  moreover from strip_loop_total [OF trimmed_str_strip] obtain t2 where
    "strip_loop (str_strip t1) EXTRA_STRIP_PATTERNS = Inr t2" by blast
  ultimately show ?thesis by (simp add: replace_junk_def)
qed

lemma get_clean_title_total: "\<exists>t. get_clean_title self it = Inr t"
proof -
  from specific_patterns_total obtain ps where
    ps: "specific_junk_patterns self (Path (path it)) = Inr ps" "list_all junk_pattern ps"
    by blast
  from ps(2) static_junk_patterns have "list_all junk_pattern (ps @ YOUTUBE_TITLE_JUNK)"
    by simp
  from replace_junk_total [OF this] ps(1) show ?thesis
    by (simp add: get_clean_title_def Let_def)
qed

lemma lead_cut_no_sep: "t = [] \<or> hd t \<notin> set separators \<Longrightarrow> lead_cut t = t"
  by (cases t) (auto simp: lead_cut_def)

lemma strip_loop_clean:
  assumes "trimmed t" and "t = [] \<or> (hd t \<notin> set separators \<and> last t \<notin> set separators)"
  shows "strip_loop t EXTRA_STRIP_PATTERNS = Inr t"
proof -
  from assms(2) have lc: "lead_cut t = t" by (intro lead_cut_no_sep) blast
  from strip_loop_extra [OF assms(1)] obtain t' where
    t': "strip_loop t EXTRA_STRIP_PATTERNS = Inr t'"
    and alt: "t' = t \<or> (\<exists>k. 0 < k \<and> k \<le> length t \<and> t' = take k t
                          \<and> (last t \<in> set separators \<or> is_space (last t)))"
    unfolding lc by blast
  have "t' = t"
  proof (rule ccontr)
    assume "t' \<noteq> t"
    with alt obtain k where k: "0 < k" "k \<le> length t"
      and l: "last t \<in> set separators \<or> is_space (last t)" by blast
    from k have "t \<noteq> []" by auto
    with assms l show False by (auto simp: trimmed_def)
  qed
  with t' show ?thesis by simp
qed

lemma replace_junk_clean:
  assumes "\<forall>pt\<in>set ps. re_search pt t = None"
    and "str_strip t = [] \<or>
         (hd (str_strip t) \<notin> set separators \<and> last (str_strip t) \<notin> set separators)"
  shows "replace_junk t ps = Inr (str_strip t)"
  using junk_loop_no_match [OF assms(1)] strip_loop_clean [OF trimmed_str_strip assms(2)]
  by (simp add: replace_junk_def)

lemma strip_loop_head:
  assumes "trimmed t" and "strip_loop t EXTRA_STRIP_PATTERNS = Inr r"
  shows "r = [] \<or> \<not> is_space (hd r)"
proof -
  have lc: "lead_cut t = [] \<or> \<not> is_space (hd (lead_cut t))"
  proof (cases t)
    case Nil
    then show ?thesis by (simp add: lead_cut_def)
  next
    case (Cons c cs)
    with assms(1) have "\<not> is_space c" by (simp add: trimmed_def)
    with Cons show ?thesis
      by (auto simp: lead_cut_def hd_dropWhile)
  qed
  from strip_loop_extra [OF assms(1)] assms(2) have
    "r = lead_cut t \<or> (\<exists>k. 0 < k \<and> k \<le> length (lead_cut t) \<and> r = take k (lead_cut t))"
    by auto
  then show ?thesis
  proof
    assume "r = lead_cut t"
    with lc show ?thesis by simp
  next
    assume "\<exists>k. 0 < k \<and> k \<le> length (lead_cut t) \<and> r = take k (lead_cut t)"
    then obtain k where k: "0 < k" "k \<le> length (lead_cut t)" "r = take k (lead_cut t)"
      by blast
    then have "lead_cut t \<noteq> []" by auto
    with lc have "\<not> is_space (hd (lead_cut t))" by simp
    moreover from k have "hd r = hd (lead_cut t)" by (simp add: hd_take)
    ultimately show ?thesis by simp
  qed
qed

lemma replace_junk_head:
  assumes "replace_junk t ps = Inr r"
  shows "r = [] \<or> \<not> is_space (hd r)"
proof -
  from assms obtain t1 where "strip_loop (str_strip t1) EXTRA_STRIP_PATTERNS = Inr r"
    by (auto simp: replace_junk_def split: sum.splits)
  with trimmed_str_strip show ?thesis by (rule strip_loop_head)
qed

subsection \<open>The static catalogue needs an opening bracket\<close>

lemma bracketed_no_opener:
  "\<forall>c\<in>set s. c \<notin> set ''([{'' \<Longrightarrow> search_from (bracketed kw) p s = None"
proof (induction s arbitrary: p)
  case Nil
  show ?case by (simp add: match_at_def bracketed_def)
next
  case (Cons c cs)
  then have "\<not> atom_ok True (OneOf ''([{'') c"
    unfolding atom_ok.simps using opener_ci [of c] by simp
  then have "match_at (bracketed kw) p (c # cs) = None"
    by (simp add: match_at_def bracketed_def del: atom_ok.simps)
  with Cons show ?case by simp
qed

lemma static_no_opener:
  assumes "\<forall>c\<in>set s. c \<notin> set ''([{''"
  shows "\<forall>pt\<in>set YOUTUBE_TITLE_JUNK. re_search pt s = None"
proof
  fix pt
  assume "pt \<in> set YOUTUBE_TITLE_JUNK"
  then obtain kw where "pt = bracketed kw" using static_bracketed by blast
  with bracketed_no_opener [OF assms] show "re_search pt s = None"
    by (simp add: re_search_def)
qed

subsection \<open>Literal names\<close>

lemma ci_prefix_Nil: "ci_prefix [] s"
  by (simp add: ci_prefix_def str_lower_def)

lemma ci_prefix_Cons:
  "ci_prefix (c # cs) s \<longleftrightarrow>
     (case s of [] \<Rightarrow> False | d # ds \<Rightarrow> lower_chr d = lower_chr c \<and> ci_prefix cs ds)"
  by (cases s) (auto simp: ci_prefix_def str_lower_def)

lemma ci_prefix_append:
  "ci_prefix (a @ b) s \<longleftrightarrow> ci_prefix a s \<and> ci_prefix b (drop (length a) s)"
proof (induction a arbitrary: s)
  case Nil
  show ?case by (simp add: ci_prefix_Nil)
next
  case (Cons c a)
  show ?case by (cases s) (simp_all add: ci_prefix_Cons Cons.IH)
qed

lemma lits_match:
  "rmatch True (lits n) (p, s, g) =
     (if ci_prefix n s then [(p + length n, drop (length n) s, g)] else [])"
proof (induction n arbitrary: p s)
  case Nil
  show ?case by (simp add: ci_prefix_Nil)
next
  case (Cons c cs)
  show ?case
  proof (cases s)
    case Nil
    then show ?thesis by (simp add: ci_prefix_Cons)
  next
    case (Cons d ds)
    then show ?thesis by (simp add: ci_prefix_Cons Cons.IH)
  qed
qed



lemma paren_match:
  "rmatch True (Atom (Ch CHR ''('')) (p, s, g) = (if ci_prefix ''('' s then [(Suc p, drop 1 s, g)] else [])"
  "rmatch True (Atom (Ch CHR '')'')) (p, s, g) = (if ci_prefix '')'' s then [(Suc p, drop 1 s, g)] else [])"
  by (cases s; simp add: ci_prefix_Cons ci_prefix_Nil)+

lemma album_match:
  assumes "remove_album_name_pattern n = Inr pt"
  shows "match_at pt p s = map_option (junk_match pt p) (album_junk_at n s)"
proof -
  from assms have pt: "pt = \<lparr>ignorecase = True,
      body = Group ''junk'' (Seq (Atom (Ch CHR ''('')) (Seq (lits n) (Atom (Ch CHR '')''))))\<rparr>"
    by (simp add: album_pattern)
  have "ci_prefix (''('' @ n @ '')'') s \<longleftrightarrow>
      ci_prefix ''('' s \<and> ci_prefix n (drop 1 s) \<and> ci_prefix '')'' (drop (length n) (drop 1 s))"
    using ci_prefix_append [of "''(''" "n @ '')''" s] ci_prefix_append [of n "'')''" "drop 1 s"]
    by simp
  moreover have "ci_prefix (''('' @ n @ '')'') s \<Longrightarrow> length n + 2 \<le> length s"
    by (simp add: ci_prefix_def)
  ultimately show ?thesis
    unfolding match_at_def album_junk_at_def junk_match_def
    by (auto simp: pt lits_match paren_match min_def simp del: rmatch.simps(2,3) lits.simps)
qed

lemma ci_prefix_length: "ci_prefix x s \<Longrightarrow> length x \<le> length s"
  by (simp add: ci_prefix_def)

lemma artist_match:
  assumes "remove_artist_name_pattern n = Inr pt"
  shows "match_at pt p s = map_option (junk_match pt p) (artist_junk_at n s)"
proof -
  from assms have pt: "pt = \<lparr>ignorecase = True,
      body = Group ''junk''
        (Seq (Opt (Atom (Ch CHR ''(''))) (Seq (lits n) (Opt (Atom (Ch CHR '')'')))))\<rparr>"
    by (simp add: artist_pattern)
  have both: "ci_prefix (''('' @ n @ '')'') s \<longleftrightarrow>
      ci_prefix ''('' s \<and> ci_prefix n (drop 1 s) \<and> ci_prefix '')'' (drop (length n) (drop 1 s))"
    using ci_prefix_append [of "''(''" "n @ '')''" s] ci_prefix_append [of n "'')''" "drop 1 s"]
    by simp
  have left: "ci_prefix (''('' @ n) s \<longleftrightarrow> ci_prefix ''('' s \<and> ci_prefix n (drop 1 s)"
    using ci_prefix_append [of "''(''" n s] by simp
  have right: "ci_prefix (n @ '')'') s \<longleftrightarrow> ci_prefix n s \<and> ci_prefix '')'' (drop (length n) s)"
    by (rule ci_prefix_append)
  have len: "ci_prefix (''('' @ n @ '')'') s \<Longrightarrow> length n + 2 \<le> length s"
    "ci_prefix (''('' @ n) s \<Longrightarrow> length n + 1 \<le> length s"
    "ci_prefix (n @ '')'') s \<Longrightarrow> length n + 1 \<le> length s"
    "ci_prefix n s \<Longrightarrow> length n \<le> length s"
    by (simp_all add: ci_prefix_def)
  show ?thesis
  proof (cases "ci_prefix (''('' @ n @ '')'') s")
    case True
    with both len(1) show ?thesis
      unfolding match_at_def artist_junk_at_def junk_match_def
      by (simp add: pt lits_match paren_match min_def del: rmatch.simps(2,3) lits.simps)
  next
    case nb: False
    show ?thesis
    proof (cases "ci_prefix (''('' @ n) s")
      case True
      with nb both left len(2) show ?thesis
        unfolding match_at_def artist_junk_at_def junk_match_def
        by (simp add: pt lits_match paren_match min_def del: rmatch.simps(2,3) lits.simps)
    next
      case nl: False
      show ?thesis
      proof (cases "ci_prefix (n @ '')'') s")
        case True
        with nb nl left right len(3) show ?thesis
          unfolding match_at_def artist_junk_at_def junk_match_def
          by (auto simp: pt lits_match paren_match min_def simp del: rmatch.simps(2,3) lits.simps)
      next
        case nr: False
        with nb nl left right len(4) show ?thesis
          unfolding match_at_def artist_junk_at_def junk_match_def
          by (auto simp: pt lits_match paren_match min_def simp del: rmatch.simps(2,3) lits.simps)
      qed
    qed
  qed
qed

subsection \<open>Removing every occurrence\<close>

lemma str_replace_absent: "\<not> sublist old y \<Longrightarrow> str_replace y old = y"
proof (induction y)
  case Nil
  show ?case by simp
next
  case (Cons c cs)
  from Cons.prems have "\<not> prefix old (c # cs)" and "\<not> sublist old cs"
    by (simp_all add: sublist_Cons_right)
  then show ?case using Cons.IH by simp
qed

lemma take_append_le: "n \<le> length A \<Longrightarrow> take n (A @ B) = take n A"
  by simp

lemma str_replace_skip:
  assumes "old \<noteq> []" and "\<not> sublist old (x @ butlast old)"
  shows "str_replace (x @ old @ rest) old = x @ str_replace rest old"
  using assms(2)
proof (induction x)
  case Nil
  from assms(1) obtain c cs where old: "old = c # cs" by (cases old) auto
  have "str_replace ((c # cs) @ rest) (c # cs) = str_replace rest (c # cs)"
    by simp
  then show ?case by (simp add: old)
next
  case (Cons c x)
  let ?A = "(c # x) @ butlast old"
  have "\<not> prefix old ((c # x) @ old @ rest)"
  proof
    assume "prefix old ((c # x) @ old @ rest)"
    then obtain r where "(c # x) @ old @ rest = old @ r" by (auto simp: prefix_def)
    then have "take (length old) ((c # x) @ old @ rest) = old" by simp
    moreover have e: "butlast old @ [last old] = old"
      using assms(1) by (rule append_butlast_last_id)
    have "?A @ (last old # rest) = (c # x) @ (butlast old @ [last old]) @ rest"
      by simp
    then have "?A @ (last old # rest) = (c # x) @ old @ rest"
      unfolding e .
    ultimately have "take (length old) (?A @ (last old # rest)) = old" by (simp only:)
    moreover have "length old \<le> length ?A" by simp
    then have "take (length old) (?A @ (last old # rest)) = take (length old) ?A"
      by (rule take_append_le)
    ultimately have "take (length old) ?A = old" by (simp only:)
    then have "prefix old ?A" using take_is_prefix [of "length old" ?A] by simp
    then have "sublist old ?A" by (rule prefix_imp_sublist)
    with Cons.prems show False by simp
  qed
  moreover from Cons.prems have "\<not> sublist old (x @ butlast old)"
    by (simp add: sublist_Cons_right)
  ultimately show ?case using Cons.IH by simp
qed

lemma str_replace_all:
  assumes "old \<noteq> []" and "\<forall>x\<in>set xs. \<not> sublist old (x @ butlast old)" and "\<not> sublist old y"
  shows "str_replace (concat (map (\<lambda>x. x @ old) xs) @ y) old = concat xs @ y"
  using assms(2)
proof (induction xs)
  case Nil
  from assms(3) show ?case by (simp add: str_replace_absent)
next
  case (Cons x xs)
  then have "\<not> sublist old (x @ butlast old)" by simp
  from str_replace_skip [OF assms(1) this, of "concat (map (\<lambda>x. x @ old) xs) @ y"] Cons
  show ?case by simp
qed

subsection \<open>Items\<close>

lemma clean_item_kept: "\<exists>it'. clean_item self it = Inr it' \<and> fields_kept self it it'"
proof -
  from get_clean_title_total obtain t where "get_clean_title self it = Inr t" by blast
  then show ?thesis
    by (simp add: clean_item_def set_title_def set_album_def set_artist_def fields_kept_def)
qed

lemma clean_items_kept:
  "\<exists>out. clean_items self its = Inr out \<and> list_all2 (fields_kept self) its out"
proof (induction its)
  case Nil
  show ?case by simp
next
  case (Cons it its)
  from clean_item_kept obtain it' where "clean_item self it = Inr it'" "fields_kept self it it'"
    by blast
  moreover from Cons obtain out where "clean_items self its = Inr out"
    "list_all2 (fields_kept self) its out" by blast
  ultimately show ?case by simp
qed

section \<open>Properties\<close>

subsection \<open>C1: which occurrences of the junk are removed\<close>

text \<open>
  C1, as stated, fails. The pattern for \<^verbatim>\<open>HQ\<close>, \<^verbatim>\<open>HD\<close> and \<^verbatim>\<open>CDQ\<close> finds the junk
  \<^verbatim>\<open>(HD)\<close> at the start of \<^verbatim>\<open>(HD) a (HD)\<close>; the step removes both occurrences,
  whereas deleting the first occurrence alone would leave the second in place.
\<close>

theorem first_occurrence_counterexample:
  "map_option captures
     (re_search (bracketed (Alt (lits ''HQ'') (Alt (lits ''HD'') (lits ''CDQ'')))) ''(HD) a (HD)'')
     = Some [(''junk'', ''(HD)'')]
   \<and> junk_step ''(HD) a (HD)'' (bracketed (Alt (lits ''HQ'') (Alt (lits ''HD'') (lits ''CDQ''))))
     = Inr '' a ''
   \<and> delete_first ''(HD) a (HD)'' ''(HD)'' = '' a (HD)''"
  by code_simp

text \<open>
  C1, amended: \<^verbatim>\<open>_replace_junk\<close> goes through the patterns in the order given and
  searches each of them once, in the title as the patterns before it have left it.
  When the pattern matches and captures a non-empty junk text, every occurrence of that
  text is deleted, found from left to right without overlap, and the next pattern works
  on the result. Written out: if the title is \<open>x\<^sub>1 junk x\<^sub>2 junk \<dots> x\<^sub>n junk y\<close>,
  where each \<open>junk\<close> shown is the first occurrence in what follows the one before and
  \<open>y\<close> has none, then the step gives \<open>x\<^sub>1 x\<^sub>2 \<dots> x\<^sub>n y\<close>, and the loop and the
  whole call continue from there with the remaining patterns. A pattern that does not
  match, or that captures an empty junk, leaves the title as it is. After the last
  pattern the title is trimmed and the separator patterns are applied.
\<close>

theorem junk_removed_everywhere:
  assumes "re_search pt title_in = Some m"
    and "group m ''junk'' = Inr (Some junk)"
    and "junk \<noteq> []"
    and "title_in = concat (map (\<lambda>x. x @ junk) xs) @ y"
    and "\<forall>x\<in>set xs. \<not> sublist junk (x @ butlast junk)"
    and "\<not> sublist junk y"
  shows "junk_step title_in pt = Inr (concat xs @ y)
    \<and> junk_loop title_in (pt # patterns) = junk_loop (concat xs @ y) patterns
    \<and> replace_junk title_in (pt # patterns) = replace_junk (concat xs @ y) patterns
    \<and> (\<forall>t p ps. re_search p t = None \<longrightarrow>
          junk_loop t (p # ps) = junk_loop t ps \<and> replace_junk t (p # ps) = replace_junk t ps)
    \<and> (\<forall>t p ps m'. re_search p t = Some m' \<and> group m' ''junk'' = Inr (Some []) \<longrightarrow>
          junk_loop t (p # ps) = junk_loop t ps \<and> replace_junk t (p # ps) = replace_junk t ps)
    \<and> (\<forall>t. junk_loop t [] = Inr t
          \<and> replace_junk t [] = strip_loop (str_strip t) EXTRA_STRIP_PATTERNS)"
proof -
  from assms(1,2) have "junk_step title_in pt = Inr (str_replace title_in junk)"
    by (simp add: junk_step_def)
  also have "str_replace title_in junk = concat xs @ y"
    unfolding assms(4) using assms(3,5,6) by (rule str_replace_all)
  finally have step: "junk_step title_in pt = Inr (concat xs @ y)" .
  then have loop: "junk_loop title_in (pt # patterns) = junk_loop (concat xs @ y) patterns"
    by simp
  then have whole: "replace_junk title_in (pt # patterns) = replace_junk (concat xs @ y) patterns"
    by (simp only: replace_junk_def)
  have none: "junk_loop t (p # ps) = junk_loop t ps \<and> replace_junk t (p # ps) = replace_junk t ps"
    if "re_search p t = None" for t p ps
  proof -
    from that have "junk_step t p = Inr t" by (simp add: junk_step_def)
    then have "junk_loop t (p # ps) = junk_loop t ps" by simp
    then show ?thesis by (simp only: replace_junk_def)
  qed
  have empty: "junk_loop t (p # ps) = junk_loop t ps \<and> replace_junk t (p # ps) = replace_junk t ps"
    if "re_search p t = Some m' \<and> group m' ''junk'' = Inr (Some [])" for t p ps m'
  proof -
    from that have "junk_step t p = Inr t" by (simp add: junk_step_def str_replace_empty)
    then have "junk_loop t (p # ps) = junk_loop t ps" by simp
    then show ?thesis by (simp only: replace_junk_def)
  qed
  have last: "junk_loop t [] = Inr t
      \<and> replace_junk t [] = strip_loop (str_strip t) EXTRA_STRIP_PATTERNS" for t
    by (simp add: replace_junk_def)
  from step loop whole none empty last show ?thesis by blast
qed

text \<open>
  The amended C1 at the title \<^verbatim>\<open>[HQ] x [HQ] y\<close> for the step, and at the title
  \<^verbatim>\<open>(HD) (HQ)\<close> for the whole call: the second pattern of the catalogue removes
  \<^verbatim>\<open>(HD)\<close> and is not searched again, so \<^verbatim>\<open>(HQ)\<close> stays.
\<close>

theorem junk_removed_everywhere_witness:
  "junk_step ''[HQ] x [HQ] y'' (bracketed (Alt (lits ''HQ'') (Alt (lits ''HD'') (lits ''CDQ''))))
     = Inr '' x  y''
   \<and> replace_junk ''(HD) (HQ)'' [bracketed (Alt (lits ''HQ'') (Alt (lits ''HD'') (lits ''CDQ'')))]
     = Inr ''(HQ)''
   \<and> replace_junk ''(HD) (HQ)'' YOUTUBE_TITLE_JUNK = Inr ''(HQ)''"
proof -
  let ?pt = "bracketed (Alt (lits ''HQ'') (Alt (lits ''HD'') (lits ''CDQ'')))"
  let ?p0 = "bracketed (Alt (lits ''Explicit'')
                (Alt (lits ''Clean'')
                     (Seq (lits ''Parental'') (Seq (Atom Space) (lits ''Advisory'')))))"
  let ?rest = "tl (tl YOUTUBE_TITLE_JUNK)"
  let ?m = "\<lparr>re = ?pt, span_start = 0, span_end = 4, captures = [(''junk'', ''[HQ]'')]\<rparr>"
  have a: "re_search ?pt ''[HQ] x [HQ] y'' = Some ?m" by code_simp
  have b: "group ?m ''junk'' = Inr (Some ''[HQ]'')" by code_simp
  have c: "''[HQ]'' \<noteq> []" by simp
  have d: "''[HQ] x [HQ] y'' = concat (map (\<lambda>x. x @ ''[HQ]'') ['''', '' x '']) @ '' y''"
    by simp
  have e: "\<forall>x\<in>set ['''', '' x '']. \<not> sublist ''[HQ]'' (x @ butlast ''[HQ]'')" by code_simp
  have f: "\<not> sublist ''[HQ]'' '' y''" by code_simp
  from junk_removed_everywhere [OF a b c d e f]
  have one: "junk_step ''[HQ] x [HQ] y'' ?pt = Inr '' x  y''" by simp
  let ?n = "\<lparr>re = ?pt, span_start = 0, span_end = 4, captures = [(''junk'', ''(HD)'')]\<rparr>"
  have a': "re_search ?pt ''(HD) (HQ)'' = Some ?n" by code_simp
  have b': "group ?n ''junk'' = Inr (Some ''(HD)'')" by code_simp
  have c': "''(HD)'' \<noteq> []" by simp
  have d': "''(HD) (HQ)'' = concat (map (\<lambda>x. x @ ''(HD)'') ['''']) @ '' (HQ)''" by simp
  have e': "\<forall>x\<in>set ['''']. \<not> sublist ''(HD)'' (x @ butlast ''(HD)'')" by code_simp
  have f': "\<not> sublist ''(HD)'' '' (HQ)''" by code_simp
  note at_hd = junk_removed_everywhere [OF a' b' c' d' e' f']
  have end1: "replace_junk '' (HQ)'' [] = Inr ''(HQ)''" by code_simp
  from at_hd [of "[]"] end1
  have two: "replace_junk ''(HD) (HQ)'' [?pt] = Inr ''(HQ)''" by simp
  have cat: "YOUTUBE_TITLE_JUNK = ?p0 # ?pt # ?rest" by (simp add: YOUTUBE_TITLE_JUNK_def)
  have n0: "re_search ?p0 ''(HD) (HQ)'' = None" by code_simp
  have end2: "replace_junk '' (HQ)'' ?rest = Inr ''(HQ)''" by code_simp
  from at_hd [of ?rest] have
    "\<forall>t p ps. re_search p t = None \<longrightarrow> replace_junk t (p # ps) = replace_junk t ps" by blast
  with n0 have "replace_junk ''(HD) (HQ)'' (?p0 # ?pt # ?rest) = replace_junk ''(HD) (HQ)'' (?pt # ?rest)"
    by blast
  also from at_hd [of ?rest] have "\<dots> = replace_junk '' (HQ)'' ?rest" by simp
  also note end2
  finally have three: "replace_junk ''(HD) (HQ)'' YOUTUBE_TITLE_JUNK = Inr ''(HQ)''"
    by (simp only: cat [symmetric])
  from one two three show ?thesis by blast
qed

subsection \<open>C2: a title that is a lone separator\<close>

text \<open>
  C2, as stated, fails: the title \<^verbatim>\<open>" - "\<close> is cleaned to \<^verbatim>\<open>"-"\<close>, not to the empty
  string, also as the name of a file. Both separator patterns ask for at least one
  character of title besides the separator.
\<close>

theorem lone_separator_counterexample:
  "replace_junk '' - '' YOUTUBE_TITLE_JUNK = Inr ''-''
   \<and> get_clean_title \<lparr>infer_album = True, infer_artist = True\<rparr>
        \<lparr>path = '' - .mp3'', title = None, album = None, artist = None\<rparr> = Inr ''-''"
  by code_simp

text \<open>
  C2, amended: a title made of one separator character with whitespace around it is
  cleaned, with the static catalogue, to the one-character text holding that separator;
  the call returns.
\<close>

theorem lone_separator_kept:
  assumes "c \<in> set separators" and "\<forall>x\<in>set ws1. is_space x" and "\<forall>x\<in>set ws2. is_space x"
  shows "replace_junk (ws1 @ [c] @ ws2) YOUTUBE_TITLE_JUNK = Inr [c]"
proof -
  let ?t = "ws1 @ [c] @ ws2"
  from assms have "\<forall>x\<in>set ?t. x \<notin> set ''([{''"
    using is_space_not_opener sep_not_opener by auto
  then have "\<forall>pt\<in>set YOUTUBE_TITLE_JUNK. re_search pt ?t = None"
    by (rule static_no_opener)
  then have loop: "junk_loop ?t YOUTUBE_TITLE_JUNK = Inr ?t" by (rule junk_loop_no_match)
  from assms(1) have nc: "\<not> is_space c" by (rule not_space_sep)
  from assms(2) nc have "dropWhile is_space ?t = c # ws2"
    by (simp add: dropWhile_append2)
  moreover have "dropWhile is_space (rev ws2 @ [c]) = dropWhile is_space [c]"
    using assms(3) by (intro dropWhile_append2) simp
  with nc have "dropWhile is_space (rev (c # ws2)) = [c]" by simp
  ultimately have strip: "str_strip ?t = [c]" by (simp add: str_strip_def)
  from nc have tr: "trimmed [c]" by (simp add: trimmed_def)
  have lc: "lead_cut [c] = [c]" by (simp add: lead_cut_def)
  from strip_loop_extra [OF tr] have "strip_loop [c] EXTRA_STRIP_PATTERNS = Inr [c]"
    unfolding lc by (auto simp: take_Cons')
  with loop strip show ?thesis by (simp add: replace_junk_def)
qed

text \<open>
  The amended C2 at the title \<^verbatim>\<open>"  _ "\<close>.
\<close>

theorem lone_separator_kept_witness:
  "replace_junk ''  _ '' YOUTUBE_TITLE_JUNK = Inr ''_''"
proof -
  have "CHR ''_'' \<in> set separators" "\<forall>x\<in>set ''  ''. is_space x" "\<forall>x\<in>set '' ''. is_space x"
    by code_simp+
  from lone_separator_kept [OF this] show ?thesis by simp
qed

subsection \<open>C3: a clean title comes back trimmed\<close>

text \<open>
  C3. If none of the patterns passed matches the title, and the trimmed title neither
  begins nor ends with a separator character, then cleaning returns the trimmed title;
  for a title that is trimmed already, cleaning returns the title itself.
\<close>

theorem clean_title_unchanged:
  assumes "\<forall>pt\<in>set patterns. re_search pt title_in = None"
    and "str_strip title_in = [] \<or>
         (hd (str_strip title_in) \<notin> set separators \<and> last (str_strip title_in) \<notin> set separators)"
  shows "replace_junk title_in patterns = Inr (str_strip title_in)
         \<and> (trimmed title_in \<longrightarrow> replace_junk title_in patterns = Inr title_in)"
  using replace_junk_clean [OF assms] str_strip_trimmed [of title_in] by simp

text \<open>
  C3 at the titles \<^verbatim>\<open>"  Song Title "\<close> and \<^verbatim>\<open>"Song Title"\<close> with the static catalogue.
\<close>

theorem clean_title_unchanged_witness:
  "replace_junk ''  Song Title '' YOUTUBE_TITLE_JUNK = Inr ''Song Title''
   \<and> replace_junk ''Song Title'' YOUTUBE_TITLE_JUNK = Inr ''Song Title''"
proof -
  have a: "\<forall>pt\<in>set YOUTUBE_TITLE_JUNK. re_search pt ''  Song Title '' = None"
    and b: "\<forall>pt\<in>set YOUTUBE_TITLE_JUNK. re_search pt ''Song Title'' = None"
    by code_simp+
  have s: "str_strip ''  Song Title '' = ''Song Title''" "str_strip ''Song Title'' = ''Song Title''"
    by code_simp+
  have t: "trimmed ''Song Title''" by code_simp
  have c: "hd ''Song Title'' \<notin> set separators \<and> last ''Song Title'' \<notin> set separators"
    by code_simp
  from clean_title_unchanged [OF a] clean_title_unchanged [OF b] s c t show ?thesis by simp
qed

subsection \<open>C4: filled fields are kept\<close>

text \<open>
  C4. Every item that \<^verbatim>\<open>clean_youtube_metadata\<close> goes through comes back with its
  path and all its other fields as they were; a title, album or artist that was filled
  is not overwritten, and album and artist are written only when their option is on.
  The hook returns for every task that has the items it reads.
\<close>

theorem filled_fields_kept:
  assumes "task_selection task = Inr its"
  shows "\<exists>out. clean_youtube_metadata self task = Inr out \<and> list_all2 (fields_kept self) its out"
  using assms clean_items_kept [of self its] by (simp add: clean_youtube_metadata_def)

text \<open>
  C4 at a single item with an album, an empty artist and no title.
\<close>

theorem filled_fields_kept_witness:
  "clean_youtube_metadata \<lparr>infer_album = True, infer_artist = True\<rparr>
     \<lparr>is_singleton = True, is_album = False,
      task_item = Some \<lparr>path = ''Artist/Album/01 Track (Official Audio).mp3'',
                        title = None, album = Some ''Mine'', artist = Some []\<rparr>,
      task_items = []\<rparr>
   = Inr [\<lparr>path = ''Artist/Album/01 Track (Official Audio).mp3'',
           title = Some ''01 Track'', album = Some ''Mine'', artist = Some ''Artist''\<rparr>]
   \<and> list_all2 (fields_kept \<lparr>infer_album = True, infer_artist = True\<rparr>)
        [\<lparr>path = ''Artist/Album/01 Track (Official Audio).mp3'',
          title = None, album = Some ''Mine'', artist = Some []\<rparr>]
        [\<lparr>path = ''Artist/Album/01 Track (Official Audio).mp3'',
          title = Some ''01 Track'', album = Some ''Mine'', artist = Some ''Artist''\<rparr>]"
proof -
  let ?self = "\<lparr>infer_album = True, infer_artist = True\<rparr>"
  let ?it = "\<lparr>path = ''Artist/Album/01 Track (Official Audio).mp3'',
                        title = None, album = Some ''Mine'', artist = Some []\<rparr>"
  let ?task = "\<lparr>is_singleton = True, is_album = False, task_item = Some ?it, task_items = []\<rparr>"
  have sel: "task_selection ?task = Inr [?it]" by (simp add: task_selection_def)
  have run: "clean_youtube_metadata ?self ?task
     = Inr [\<lparr>path = ''Artist/Album/01 Track (Official Audio).mp3'',
           title = Some ''01 Track'', album = Some ''Mine'', artist = Some ''Artist''\<rparr>]"
    by code_simp
  from filled_fields_kept [OF sel, of ?self] run show ?thesis by simp
qed

subsection \<open>C5 and C6: the two worked examples\<close>

text \<open>
  C5. For the path \<^verbatim>\<open>Artist/Album/01 Track (Official Audio).mp3\<close> the track title is
  \<^verbatim>\<open>01 Track (Official Audio)\<close>, the album name \<^verbatim>\<open>Album\<close>, the artist name
  \<^verbatim>\<open>Artist\<close>, and with both options on the clean title is \<^verbatim>\<open>01 Track\<close>.
\<close>

theorem example_path:
  "track_title_from_path (Path ''Artist/Album/01 Track (Official Audio).mp3'')
     = ''01 Track (Official Audio)''
   \<and> album_name_from_path (Path ''Artist/Album/01 Track (Official Audio).mp3'') = ''Album''
   \<and> artist_name_from_path (Path ''Artist/Album/01 Track (Official Audio).mp3'') = ''Artist''
   \<and> get_clean_title \<lparr>infer_album = True, infer_artist = True\<rparr>
        \<lparr>path = ''Artist/Album/01 Track (Official Audio).mp3'',
         title = None, album = None, artist = None\<rparr>
     = Inr ''01 Track''"
  by code_simp

text \<open>
  C6. For the raw title \<^verbatim>\<open>Artist - Song Title (Official Video)\<close> and the artist name
  \<^verbatim>\<open>Artist\<close>: the artist pattern removes the leading \<^verbatim>\<open>Artist\<close>, the static catalogue
  removes \<^verbatim>\<open>(Official Video)\<close>, trimming and the leading-separator pattern remove the
  \<^verbatim>\<open>"- "\<close> left over, and the result is \<^verbatim>\<open>Song Title\<close>; so it is for a file of that
  name under \<^verbatim>\<open>Artist/Album\<close>.
\<close>

theorem example_artist_title:
  "remove_artist_name_pattern ''Artist''
     = Inr \<lparr>ignorecase = True,
            body = Group ''junk''
              (Seq (Opt (Atom (Ch CHR ''(''))) (Seq (lits ''Artist'') (Opt (Atom (Ch CHR '')'')))))\<rparr>
   \<and> junk_step ''Artist - Song Title (Official Video)''
        \<lparr>ignorecase = True,
         body = Group ''junk''
           (Seq (Opt (Atom (Ch CHR ''(''))) (Seq (lits ''Artist'') (Opt (Atom (Ch CHR '')'')))))\<rparr>
     = Inr '' - Song Title (Official Video)''
   \<and> junk_loop '' - Song Title (Official Video)'' YOUTUBE_TITLE_JUNK = Inr '' - Song Title ''
   \<and> str_strip '' - Song Title '' = ''- Song Title''
   \<and> strip_loop ''- Song Title'' EXTRA_STRIP_PATTERNS = Inr ''Song Title''
   \<and> replace_junk ''Artist - Song Title (Official Video)''
        (\<lparr>ignorecase = True,
          body = Group ''junk''
            (Seq (Opt (Atom (Ch CHR ''(''))) (Seq (lits ''Artist'') (Opt (Atom (Ch CHR '')'')))))\<rparr>
         # YOUTUBE_TITLE_JUNK)
     = Inr ''Song Title''
   \<and> get_clean_title \<lparr>infer_album = True, infer_artist = True\<rparr>
        \<lparr>path = ''Artist/Album/Artist - Song Title (Official Video).mp3'',
         title = None, album = None, artist = None\<rparr>
     = Inr ''Song Title''"
  by code_simp

subsection \<open>C7: no patterns\<close>

text \<open>
  C7, as stated, fails: with no patterns at all the title \<^verbatim>\<open>"- x"\<close>, which is trimmed
  already, comes back as \<^verbatim>\<open>"x"\<close>, because the separator patterns are always applied.
\<close>

theorem no_patterns_counterexample:
  "replace_junk ''- x'' [] = Inr ''x'' \<and> str_strip ''- x'' = ''- x''"
  by code_simp

text \<open>
  C7, amended: for a title whose trimmed form neither begins nor ends with a separator
  character, \<^verbatim>\<open>_replace_junk\<close> with no patterns returns the title trimmed and
  otherwise unchanged.
\<close>

theorem no_patterns_trimmed:
  assumes "str_strip title_in = [] \<or>
         (hd (str_strip title_in) \<notin> set separators \<and> last (str_strip title_in) \<notin> set separators)"
  shows "replace_junk title_in [] = Inr (str_strip title_in)"
  by (rule replace_junk_clean) (simp_all add: assms)

text \<open>
  The amended C7 at the title \<^verbatim>\<open>"  a - b  "\<close>.
\<close>

theorem no_patterns_trimmed_witness:
  "replace_junk ''  a - b  '' [] = Inr ''a - b''"
proof -
  have s: "str_strip ''  a - b  '' = ''a - b''" by code_simp
  have c: "hd ''a - b'' \<notin> set separators \<and> last ''a - b'' \<notin> set separators" by code_simp
  from no_patterns_trimmed [of "''  a - b  ''"] s c show ?thesis by simp
qed

subsection \<open>C8: the patterns built from a name\<close>

text \<open>
  C8. For every name both builders return a case-insensitive pattern. At every position
  the artist pattern finds exactly the name read literally, upper and lower case taken
  as equal, with a parenthesis before it, after it, both or neither (the longer reading
  first), and captures all of the matched text as \<^verbatim>\<open>junk\<close>; the album pattern finds
  exactly the name in both parentheses and captures it with the parentheses.
\<close>

theorem name_patterns_match:
  "(\<exists>pt. remove_artist_name_pattern n = Inr pt \<and> ignorecase pt
        \<and> (\<forall>p s. match_at pt p s = map_option (junk_match pt p) (artist_junk_at n s)))
   \<and> (\<exists>pt. remove_album_name_pattern n = Inr pt \<and> ignorecase pt
        \<and> (\<forall>p s. match_at pt p s = map_option (junk_match pt p) (album_junk_at n s)))"
proof -
  obtain pa where pa: "remove_artist_name_pattern n = Inr pa" by (simp add: artist_pattern)
  obtain pb where pb: "remove_album_name_pattern n = Inr pb" by (simp add: album_pattern)
  from pa have "ignorecase pa" by (auto simp: artist_pattern)
  moreover from pb have "ignorecase pb" by (auto simp: album_pattern)
  ultimately show ?thesis
    using pa pb artist_match [OF pa] album_match [OF pb] by blast
qed

text \<open>
  C8 at the name \<^verbatim>\<open>a.b\<close>, whose dot is read literally.
\<close>

theorem name_patterns_match_witness:
  "(\<exists>pt. remove_artist_name_pattern ''a.b'' = Inr pt
        \<and> match_at pt 0 ''(A.B) x'' = Some (junk_match pt 0 ''(A.B)'')
        \<and> match_at pt 0 ''A.B) x'' = Some (junk_match pt 0 ''A.B)'')
        \<and> match_at pt 0 ''axb'' = None)
   \<and> (\<exists>pt. remove_album_name_pattern ''a.b'' = Inr pt
        \<and> match_at pt 0 ''(A.B) x'' = Some (junk_match pt 0 ''(A.B)'')
        \<and> match_at pt 0 ''A.B) x'' = None)"
proof -
  have a: "artist_junk_at ''a.b'' ''(A.B) x'' = Some ''(A.B)''"
    "artist_junk_at ''a.b'' ''A.B) x'' = Some ''A.B)''"
    "artist_junk_at ''a.b'' ''axb'' = None"
    "album_junk_at ''a.b'' ''(A.B) x'' = Some ''(A.B)''"
    "album_junk_at ''a.b'' ''A.B) x'' = None"
    by code_simp+
  from name_patterns_match [of "''a.b''"] obtain pa pb where
    pa: "remove_artist_name_pattern ''a.b'' = Inr pa"
      "\<forall>p s. match_at pa p s = map_option (junk_match pa p) (artist_junk_at ''a.b'' s)"
    and pb: "remove_album_name_pattern ''a.b'' = Inr pb"
      "\<forall>p s. match_at pb p s = map_option (junk_match pb p) (album_junk_at ''a.b'' s)"
    by blast
  from pa(2) a have "match_at pa 0 ''(A.B) x'' = Some (junk_match pa 0 ''(A.B)'')"
    "match_at pa 0 ''A.B) x'' = Some (junk_match pa 0 ''A.B)'')"
    "match_at pa 0 ''axb'' = None"
    by simp_all
  moreover from pb(2) a have "match_at pb 0 ''(A.B) x'' = Some (junk_match pb 0 ''(A.B)'')"
    "match_at pb 0 ''A.B) x'' = None"
    by simp_all
  ultimately show ?thesis using pa(1) pb(1) by blast
qed

subsection \<open>C9: whitespace at the ends of the result\<close>

text \<open>
  C9. The result of \<^verbatim>\<open>_replace_junk\<close> can end with whitespace: \<^verbatim>\<open>"Song -"\<close> with no
  patterns gives \<^verbatim>\<open>"Song "\<close>. It never begins with whitespace, whatever the title and
  the patterns.
\<close>

theorem result_head_not_space:
  "replace_junk ''Song -'' [] = Inr ''Song '' \<and> is_space (last ''Song '')
   \<and> (\<forall>title_in patterns r. replace_junk title_in patterns = Inr r \<longrightarrow> r = [] \<or> \<not> is_space (hd r))"
proof -
  have "replace_junk ''Song -'' [] = Inr ''Song ''" "is_space (last ''Song '')" by code_simp+
  then show ?thesis using replace_junk_head by blast
qed

text \<open>
  C9 at the title \<^verbatim>\<open>"  - Song -"\<close>.
\<close>

theorem result_head_not_space_witness:
  "replace_junk ''  - Song -'' [] = Inr ''Song '' \<and> \<not> is_space (hd ''Song '')"
proof -
  have r: "replace_junk ''  - Song -'' [] = Inr ''Song ''" by code_simp
  from result_head_not_space have
    "replace_junk ''  - Song -'' [] = Inr ''Song '' \<longrightarrow> ''Song '' = [] \<or> \<not> is_space (hd ''Song '')"
    by blast
  with r show ?thesis by simp
qed

subsection \<open>C10: an empty artist name\<close>




end
